theory Spec2Isabelle
  imports Main "HOL-Library.Word" "HOL-Library.Signed_Division"
begin

section \<open>Data model (tforth.h)\<close>

text \<open>
  Objects live in a heap and are named by their address. A heap is a list of cells; the
  address of a cell is its index. A cell that was freed holds \<open>None\<close>; \<open>malloc\<close> is
  modelled as appending a cell, so it always succeeds (the out-of-memory exit of
  \<open>wmalloc\<close> is not modelled) and a freed address is never handed out again. Reading
  through a pointer to a freed or unallocated cell, which C leaves undefined, is the
  explicit fatal outcome \<open>UndefinedBehaviour\<close>, as is a write past the end of an array.

  The payload \<open>number\<close> is a 32-bit \<open>int\<close>. The bookkeeping counters (\<open>refcount\<close>,
  \<open>line\<close>, \<open>column\<close>, \<open>len\<close>, \<open>capacity\<close>) are unbounded integers.
\<close>

type_synonym addr = nat

datatype TF_OBJ_TYPE = TF_OBJ_INT | TF_OBJ_STR | TF_OBJ_BOOL | TF_OBJ_LIST | TF_OBJ_SYMBOL

text \<open>
  \<open>struct tfobj\<close>. The members of the union are separate fields; \<open>str_obj.len\<close> is
  \<open>length (str ob)\<close> and \<open>list_obj.len\<close> is \<open>length (element ob)\<close>.
\<close>

record tfobj =
  type :: TF_OBJ_TYPE
  refcount :: int
  number :: "32 word"
  str :: string
  element :: "addr list"
  capacity :: nat

record tfparser =
  program :: string
  line :: int
  column :: int

record tfcontext =
  stack :: addr

record machine =
  heap :: "tfobj option list"
  stdout :: string

text \<open>The ways in which the process ends early: the four \<open>exit(EXIT_FAILURE)\<close> of the
  runtime, and the behaviour that C leaves undefined.\<close>

datatype fatal =
  StackUnderflow | DivisionByZero | UnknownWord string | UnexecutableObject | UndefinedBehaviour

type_synonym 'a outcome = "fatal \<times> machine + 'a \<times> machine"

definition return :: "'a \<Rightarrow> machine \<Rightarrow> 'a outcome" where
  "return x m = Inr (x, m)"

definition exit_failure :: "fatal \<Rightarrow> machine \<Rightarrow> 'a outcome" where
  "exit_failure e m = Inl (e, m)"

definition bind :: "(machine \<Rightarrow> 'a outcome) \<Rightarrow> ('a \<Rightarrow> machine \<Rightarrow> 'b outcome) \<Rightarrow> machine \<Rightarrow> 'b outcome" where
  "bind f g m = (case f m of Inl e \<Rightarrow> Inl e | Inr (x, m') \<Rightarrow> g x m')"

text \<open>\<open>*p\<close> as an rvalue, and the assignment \<open>*p = ob\<close>.\<close>

definition deref :: "addr \<Rightarrow> machine \<Rightarrow> tfobj outcome" where
  "deref p m =
     (if p < length (heap m)
      then (case heap m ! p of None \<Rightarrow> exit_failure UndefinedBehaviour m | Some ob \<Rightarrow> return ob m)
      else exit_failure UndefinedBehaviour m)"

definition store :: "addr \<Rightarrow> tfobj \<Rightarrow> machine \<Rightarrow> unit outcome" where
  "store p ob m =
     (if p < length (heap m) \<and> heap m ! p \<noteq> None
      then return () (m\<lparr>heap := (heap m)[p := Some ob]\<rparr>)
      else exit_failure UndefinedBehaviour m)"

definition free :: "addr \<Rightarrow> machine \<Rightarrow> unit outcome" where
  "free p m =
     (if p < length (heap m) \<and> heap m ! p \<noteq> None
      then return () (m\<lparr>heap := (heap m)[p := None]\<rparr>)
      else exit_failure UndefinedBehaviour m)"

section \<open>Memory management (mem.c)\<close>

definition INITIAL_STACK_CAPACITY :: nat where
  "INITIAL_STACK_CAPACITY = 16"

definition createObject :: "TF_OBJ_TYPE \<Rightarrow> machine \<Rightarrow> addr outcome" where
  "createObject t m =
     return (length (heap m))
       (m\<lparr>heap := heap m @
          [Some \<lparr>type = t, refcount = 1, number = 0, str = [], element = [], capacity = 0\<rparr>]\<rparr>)"

definition createStringObject :: "string \<Rightarrow> nat \<Rightarrow> machine \<Rightarrow> addr outcome" where
  "createStringObject s len =
     bind (createObject TF_OBJ_STR) (\<lambda>object.
     bind (deref object) (\<lambda>ob.
     bind (store object (ob\<lparr>str := take len s\<rparr>)) (\<lambda>_.
     return object)))"

definition createIntegerObject :: "32 word \<Rightarrow> machine \<Rightarrow> addr outcome" where
  "createIntegerObject n =
     bind (createObject TF_OBJ_INT) (\<lambda>object.
     bind (deref object) (\<lambda>ob.
     bind (store object (ob\<lparr>number := n\<rparr>)) (\<lambda>_.
     return object)))"

definition createBooleanObject :: "32 word \<Rightarrow> machine \<Rightarrow> addr outcome" where
  "createBooleanObject n =
     bind (createObject TF_OBJ_BOOL) (\<lambda>object.
     bind (deref object) (\<lambda>ob.
     bind (store object (ob\<lparr>number := n\<rparr>)) (\<lambda>_.
     return object)))"

definition createSymbolObject :: "string \<Rightarrow> nat \<Rightarrow> machine \<Rightarrow> addr outcome" where
  "createSymbolObject s len =
     bind (createStringObject s len) (\<lambda>object.
     bind (deref object) (\<lambda>ob.
     bind (store object (ob\<lparr>type := TF_OBJ_SYMBOL\<rparr>)) (\<lambda>_.
     return object)))"

definition createListObject :: "machine \<Rightarrow> addr outcome" where
  "createListObject =
     bind (createObject TF_OBJ_LIST) (\<lambda>object.
     bind (deref object) (\<lambda>ob.
     bind (store object (ob\<lparr>element := [], capacity := INITIAL_STACK_CAPACITY\<rparr>)) (\<lambda>_.
     return object)))"

definition incrementReferenceCount :: "addr \<Rightarrow> machine \<Rightarrow> unit outcome" where
  "incrementReferenceCount object =
     bind (deref object) (\<lambda>ob. store object (ob\<lparr>refcount := refcount ob + 1\<rparr>))"

text \<open>
  \<open>decrementReferenceCount\<close> and \<open>freeObject\<close> call each other; the \<open>for\<close> loop of
  \<open>freeObject\<close> is \<open>freeObject_loop\<close>, which reads \<open>len\<close> and \<open>element[i]\<close> from
  the heap at every round as the C loop does. The pointers passed are not \<open>NULL\<close>: the
  one call that can pass \<open>NULL\<close> is in \<open>main\<close> and is modelled there.
\<close>

lemma bind_cong [fundef_cong]:
  "f m = f' m' \<Longrightarrow> (\<And>x m''. f' m' = Inr (x, m'') \<Longrightarrow> g x m'' = g' x m'') \<Longrightarrow> bind f g m = bind f' g' m'"
  by (auto simp: bind_def split: sum.splits)

function (domintros) decrementReferenceCount :: "addr \<Rightarrow> machine \<Rightarrow> unit outcome"
  and freeObject :: "addr \<Rightarrow> machine \<Rightarrow> unit outcome"
  and freeObject_loop :: "nat \<Rightarrow> addr \<Rightarrow> machine \<Rightarrow> unit outcome"
where
  "decrementReferenceCount object m =
     bind (deref object) (\<lambda>ob.
     bind (store object (ob\<lparr>refcount := refcount ob - 1\<rparr>)) (\<lambda>_.
     (\<lambda>m'. if refcount ob - 1 = 0 then freeObject object m' else return () m'))) m"
| "freeObject object m =
     bind (deref object) (\<lambda>ob.
     bind (\<lambda>m'. if type ob = TF_OBJ_LIST then freeObject_loop 0 object m' else return () m') (\<lambda>_.
     free object)) m"
| "freeObject_loop i object m =
     bind (deref object) (\<lambda>ob m'.
     if i < length (element ob)
     then bind (\<lambda>m'. decrementReferenceCount (element ob ! i) m') (\<lambda>_ m'. freeObject_loop (i + 1) object m') m'
     else return () m') m"
  by pat_completeness auto

definition cell_weight :: "tfobj option \<Rightarrow> nat" where
  "cell_weight c = (case c of None \<Rightarrow> 0 | Some ob \<Rightarrow> nat (refcount ob))"

definition weight :: "machine \<Rightarrow> nat" where
  "weight m = sum_list (map cell_weight (heap m))"

definition le_cell :: "tfobj option \<Rightarrow> tfobj option \<Rightarrow> bool" where
  "le_cell c' c = (case c' of None \<Rightarrow> True
     | Some ob' \<Rightarrow> (case c of None \<Rightarrow> False
         | Some ob \<Rightarrow> element ob' = element ob \<and> refcount ob' \<le> refcount ob))"

definition shrinks :: "machine \<Rightarrow> machine \<Rightarrow> bool" where
  "shrinks m' m = list_all2 le_cell (heap m') (heap m)"

definition remaining :: "nat \<Rightarrow> addr \<Rightarrow> machine \<Rightarrow> nat" where
  "remaining i object m =
     (if object < length (heap m)
      then (case heap m ! object of None \<Rightarrow> 0 | Some ob \<Rightarrow> length (element ob) - i)
      else 0)"

lemma deref_Inr: "deref p m = Inr (ob, m') \<longleftrightarrow> m' = m \<and> p < length (heap m) \<and> heap m ! p = Some ob"
  by (auto simp: deref_def return_def exit_failure_def split: option.splits)

lemma store_Inr:
  "store p ob m = Inr (u, m') \<longleftrightarrow>
     p < length (heap m) \<and> heap m ! p \<noteq> None \<and> m' = m\<lparr>heap := (heap m)[p := Some ob]\<rparr>"
  by (auto simp: store_def return_def exit_failure_def)

lemma free_Inr:
  "free p m = Inr (u, m') \<longleftrightarrow>
     p < length (heap m) \<and> heap m ! p \<noteq> None \<and> m' = m\<lparr>heap := (heap m)[p := None]\<rparr>"
  by (auto simp: free_def return_def exit_failure_def)

lemma bind_Inr:
  "bind f g m = Inr r \<longleftrightarrow> (\<exists>x m'. f m = Inr (x, m') \<and> g x m' = Inr r)"
  by (auto simp: bind_def split: sum.splits)

lemma le_cell_refl: "le_cell c c"
  by (simp add: le_cell_def split: option.splits)

lemma le_cell_trans: "le_cell a b \<Longrightarrow> le_cell b c \<Longrightarrow> le_cell a c"
  by (auto simp: le_cell_def split: option.splits)

lemma shrinks_refl: "shrinks m m"
  by (simp add: shrinks_def list_all2_refl le_cell_refl)

lemma shrinks_trans: "shrinks a b \<Longrightarrow> shrinks b c \<Longrightarrow> shrinks a c"
  unfolding shrinks_def
  using list_all2_trans [of le_cell le_cell le_cell] le_cell_trans by blast

lemma shrinks_update:
  "p < length (heap m) \<Longrightarrow> le_cell c (heap m ! p) \<Longrightarrow> shrinks (m\<lparr>heap := (heap m)[p := c]\<rparr>) m"
  by (simp add: shrinks_def list_all2_conv_all_nth nth_list_update le_cell_refl)

lemma cell_weight_mono: "le_cell c' c \<Longrightarrow> cell_weight c' \<le> cell_weight c"
  by (auto simp: le_cell_def cell_weight_def split: option.splits)

lemma sum_list_all2_mono:
  "list_all2 (\<lambda>a b. f a \<le> (g b :: nat)) xs ys \<Longrightarrow> sum_list (map f xs) \<le> sum_list (map g ys)"
  by (induction rule: list_all2_induct) auto

lemma shrinks_weight: "shrinks m' m \<Longrightarrow> weight m' \<le> weight m"
  unfolding shrinks_def weight_def
  by (rule sum_list_all2_mono) (erule list_all2_mono, rule cell_weight_mono)

lemma weight_drop:
  assumes "p < length (heap m)" "heap m ! p = Some ob" "refcount ob = 1"
  shows "weight (m\<lparr>heap := (heap m)[p := Some (ob\<lparr>refcount := 0\<rparr>)]\<rparr>) < weight m"
proof -
  have "cell_weight (heap m ! p) = 1"
    using assms by (simp add: cell_weight_def)
  moreover have "sum_list (map cell_weight (heap m)) \<ge> cell_weight (heap m ! p)"
    using assms(1) by (simp add: member_le_sum_list)
  ultimately show ?thesis
    using assms by (simp add: weight_def map_update sum_list_update cell_weight_def)
qed

lemma release_shrinks:
  "decrementReferenceCount_freeObject_freeObject_loop_dom (Inl (object, m)) \<Longrightarrow>
     decrementReferenceCount object m = Inr (u, m') \<Longrightarrow> shrinks m' m"
  "decrementReferenceCount_freeObject_freeObject_loop_dom (Inr (Inl (object, m))) \<Longrightarrow>
     freeObject object m = Inr (u, m') \<Longrightarrow> shrinks m' m"
  "decrementReferenceCount_freeObject_freeObject_loop_dom (Inr (Inr (i, object, m))) \<Longrightarrow>
     freeObject_loop i object m = Inr (u, m') \<Longrightarrow> shrinks m' m"
proof (induction object m and object m and i object m arbitrary: u m' and u m' and u m'
    rule: decrementReferenceCount_freeObject_freeObject_loop.pinduct)
  case (1 object m)
  from "1.prems" "1.hyps" obtain ob m1 where
    d: "deref object m = Inr (ob, m)" and
    s: "store object (ob\<lparr>refcount := refcount ob - 1\<rparr>) m = Inr ((), m1)" and
    r: "(if refcount ob - 1 = 0 then freeObject object m1 else return () m1) = Inr (u, m')"
    by (auto simp: decrementReferenceCount.psimps bind_Inr deref_Inr)
  have "shrinks m1 m"
    using d s by (auto simp: deref_Inr store_Inr le_cell_def intro!: shrinks_update)
  moreover have "shrinks m' m1"
  proof (cases "refcount ob - 1 = 0")
    case True
    with r "1.IH" [OF d s True] show ?thesis by simp
  next
    case False
    with r show ?thesis by (simp add: return_def shrinks_refl)
  qed
  ultimately show ?case by (rule shrinks_trans [rotated])
next
  case (2 object m)
  from "2.prems" "2.hyps" obtain ob m1 u1 where
    d: "deref object m = Inr (ob, m)" and
    l: "(if type ob = TF_OBJ_LIST then freeObject_loop 0 object m else return () m) = Inr (u1, m1)" and
    f: "free object m1 = Inr (u, m')"
    by (auto simp: freeObject.psimps bind_Inr deref_Inr)
  have "shrinks m1 m"
  proof (cases "type ob = TF_OBJ_LIST")
    case True
    with l "2.IH" [OF d True] show ?thesis by simp
  next
    case False
    with l show ?thesis by (simp add: return_def shrinks_refl)
  qed
  moreover have "shrinks m' m1"
    using f by (auto simp: free_Inr le_cell_def intro!: shrinks_update)
  ultimately show ?case by (rule shrinks_trans [rotated])
next
  case (3 i object m)
  from "3.prems" "3.hyps" obtain ob where
    d: "deref object m = Inr (ob, m)" and
    r: "(if i < length (element ob)
         then bind (\<lambda>m'. decrementReferenceCount (element ob ! i) m')
                (\<lambda>_ m'. freeObject_loop (i + 1) object m') m
         else return () m) = Inr (u, m')"
    by (auto simp: freeObject_loop.psimps bind_Inr deref_Inr)
  show ?case
  proof (cases "i < length (element ob)")
    case True
    with r obtain u1 m1 where
      a: "decrementReferenceCount (element ob ! i) m = Inr (u1, m1)" and
      b: "freeObject_loop (i + 1) object m1 = Inr (u, m')"
      by (auto simp: bind_Inr)
    have "shrinks m1 m" using "3.IH"(1) [OF d True a] .
    moreover have "shrinks m' m1" using "3.IH"(2) [OF d True a b] .
    ultimately show ?thesis by (rule shrinks_trans [rotated])
  next
    case False
    with r show ?thesis by (simp add: return_def shrinks_refl)
  qed
qed

termination decrementReferenceCount
proof (relation "inv_image (less_than <*lex*> less_than <*lex*> less_than)
    (\<lambda>x. case x of Inl (object, m) \<Rightarrow> (weight m, 0::nat, 0::nat)
       | Inr (Inl (object, m)) \<Rightarrow> (weight m, 2, 0)
       | Inr (Inr (i, object, m)) \<Rightarrow> (weight m, 1, remaining i object m))", goal_cases)
  case 1
  show ?case by (intro wf_inv_image wf_lex_prod wf_less_than)
next
  case (2 object m ob m1 u m2)
  then show ?case by (auto simp: deref_Inr store_Inr weight_drop)
next
  case (3 object m ob m1)
  then show ?case by (auto simp: deref_Inr)
next
  case (4 i object m ob m1)
  then show ?case by (auto simp: deref_Inr)
next
  case (5 i object m ob m1 u m2)
  then have m1: "m1 = m" and p: "object < length (heap m)" and ob: "heap m ! object = Some ob"
    and i: "i < length (element ob)"
    by (auto simp: deref_Inr)
  from 5 m1 have sh: "shrinks m2 m"
    by (auto dest: release_shrinks(1))
  then have w: "weight m2 \<le> weight m" by (rule shrinks_weight)
  from sh p have le: "le_cell (heap m2 ! object) (heap m ! object)" and len: "length (heap m2) = length (heap m)"
    by (auto simp: shrinks_def list_all2_conv_all_nth)
  have "remaining (i + 1) object m2 < remaining i object m"
    using le len p ob i by (auto simp: remaining_def le_cell_def split: option.splits)
  with w m1 show ?case by auto
qed

declare decrementReferenceCount.simps [simp del] freeObject.simps [simp del]
  freeObject_loop.simps [simp del]

text \<open>\<open>createContext\<close> and \<open>freeContext\<close>; the context itself is a value.\<close>

definition createContext :: "machine \<Rightarrow> tfcontext outcome" where
  "createContext = bind createListObject (\<lambda>s. return \<lparr>stack = s\<rparr>)"

definition freeContext :: "tfcontext \<Rightarrow> machine \<Rightarrow> unit outcome" where
  "freeContext context = decrementReferenceCount (stack context)"

section \<open>Lists (list.c) and the data stack (stack.c)\<close>

definition listAppendObject :: "addr \<Rightarrow> addr \<Rightarrow> machine \<Rightarrow> unit outcome" where
  "listAppendObject list object =
     bind (deref list) (\<lambda>l.
     bind (if length (element l) \<ge> capacity l
           then store list (l\<lparr>capacity := capacity l * 2\<rparr>) else return ()) (\<lambda>_.
     bind (deref list) (\<lambda>l.
     bind (if length (element l) < capacity l
           then store list (l\<lparr>element := element l @ [object]\<rparr>)
           else exit_failure UndefinedBehaviour) (\<lambda>_.
     incrementReferenceCount object))))"

definition stackPush :: "tfcontext \<Rightarrow> addr \<Rightarrow> machine \<Rightarrow> unit outcome" where
  "stackPush context object = listAppendObject (stack context) object"

definition stackPop :: "tfcontext \<Rightarrow> machine \<Rightarrow> addr outcome" where
  "stackPop context =
     bind (deref (stack context)) (\<lambda>s.
     if length (element s) = 0 then exit_failure StackUnderflow
     else bind (store (stack context) (s\<lparr>element := butlast (element s)\<rparr>)) (\<lambda>_.
          return (last (element s))))"

section \<open>Primitive operations (ops.c)\<close>

text \<open>C strings end at the first NUL; \<open>streq a b\<close> is \<open>strcmp(a, b) == 0\<close>.\<close>

definition cstr :: "string \<Rightarrow> string" where
  "cstr s = takeWhile (\<lambda>c. c \<noteq> CHR 0x00) s"

definition streq :: "string \<Rightarrow> string \<Rightarrow> bool" where
  "streq a b = (cstr a = cstr b)"

text \<open>\<open>printf("%d", n)\<close>.\<close>

definition digit_char :: "nat \<Rightarrow> char" where
  "digit_char d = char_of (48 + d)"

fun digits :: "nat \<Rightarrow> string" where
  "digits n = (if n < 10 then [digit_char n] else digits (n div 10) @ [digit_char (n mod 10)])"

declare digits.simps [simp del]

definition decimal :: "int \<Rightarrow> string" where
  "decimal i = (if i < 0 then CHR ''-'' # digits (nat (- i)) else digits (nat i))"

definition printf :: "string \<Rightarrow> machine \<Rightarrow> unit outcome" where
  "printf s m = return () (m\<lparr>stdout := stdout m @ s\<rparr>)"

text \<open>
  \<open>a / b\<close> on C \<open>int\<close>: the quotient truncated towards zero. C leaves the division
  undefined when \<open>b\<close> is 0 and when the quotient does not fit an \<open>int\<close>, which is the one
  case \<open>INT_MIN / -1\<close>; there is no value then.
\<close>

definition int_div :: "32 word \<Rightarrow> 32 word \<Rightarrow> 32 word option" where
  "int_div a b =
     (if b = 0 \<or> (sint a = - (2 ^ 31) \<and> b = - 1) then None
      else Some (word_of_int (sint a sdiv sint b)))"

type_synonym Operation = "tfcontext \<Rightarrow> machine \<Rightarrow> unit outcome"

definition operationAdd :: Operation where
  "operationAdd context =
     bind (stackPop context) (\<lambda>b.
     bind (stackPop context) (\<lambda>a.
     bind (deref a) (\<lambda>oa.
     bind (deref b) (\<lambda>ob.
     bind (if type oa = TF_OBJ_INT \<and> type ob = TF_OBJ_INT
           then bind (createIntegerObject (number oa + number ob)) (\<lambda>result.
                bind (stackPush context result) (\<lambda>_.
                decrementReferenceCount result))
           else return ()) (\<lambda>_.
     bind (decrementReferenceCount a) (\<lambda>_.
     decrementReferenceCount b))))))"

definition operationSub :: Operation where
  "operationSub context =
     bind (stackPop context) (\<lambda>b.
     bind (stackPop context) (\<lambda>a.
     bind (deref a) (\<lambda>oa.
     bind (deref b) (\<lambda>ob.
     bind (if type oa = TF_OBJ_INT \<and> type ob = TF_OBJ_INT
           then bind (createIntegerObject (number oa - number ob)) (\<lambda>result.
                bind (stackPush context result) (\<lambda>_.
                decrementReferenceCount result))
           else return ()) (\<lambda>_.
     bind (decrementReferenceCount a) (\<lambda>_.
     decrementReferenceCount b))))))"

definition operationMul :: Operation where
  "operationMul context =
     bind (stackPop context) (\<lambda>b.
     bind (stackPop context) (\<lambda>a.
     bind (deref a) (\<lambda>oa.
     bind (deref b) (\<lambda>ob.
     bind (if type oa = TF_OBJ_INT \<and> type ob = TF_OBJ_INT
           then bind (createIntegerObject (number oa * number ob)) (\<lambda>result.
                bind (stackPush context result) (\<lambda>_.
                decrementReferenceCount result))
           else return ()) (\<lambda>_.
     bind (decrementReferenceCount a) (\<lambda>_.
     decrementReferenceCount b))))))"

definition operationDiv :: Operation where
  "operationDiv context =
     bind (stackPop context) (\<lambda>b.
     bind (stackPop context) (\<lambda>a.
     bind (deref a) (\<lambda>oa.
     bind (deref b) (\<lambda>ob.
     bind (if type oa = TF_OBJ_INT \<and> type ob = TF_OBJ_INT
           then if number ob = 0 then exit_failure DivisionByZero
                else (case int_div (number oa) (number ob) of
                        None \<Rightarrow> exit_failure UndefinedBehaviour
                      | Some q \<Rightarrow>
                          bind (createIntegerObject q) (\<lambda>result.
                          bind (stackPush context result) (\<lambda>_.
                          decrementReferenceCount result)))
           else return ()) (\<lambda>_.
     bind (decrementReferenceCount a) (\<lambda>_.
     decrementReferenceCount b))))))"

definition operationPrint :: Operation where
  "operationPrint context =
     bind (stackPop context) (\<lambda>object.
     bind (deref object) (\<lambda>ob.
     bind (if type ob = TF_OBJ_INT then printf (decimal (sint (number ob)) @ '' '')
           else if type ob = TF_OBJ_STR then printf (cstr (str ob) @ '' '')
           else if type ob = TF_OBJ_BOOL
             then printf ((if number ob \<noteq> 0 then ''TRUE'' else ''FALSE'') @ '' '')
           else return ()) (\<lambda>_.
     decrementReferenceCount object)))"

definition operationDup :: Operation where
  "operationDup context =
     bind (deref (stack context)) (\<lambda>s.
     if length (element s) = 0 then return ()
     else bind (stackPop context) (\<lambda>object.
          bind (stackPush context object) (\<lambda>_.
          bind (stackPush context object) (\<lambda>_.
          decrementReferenceCount object))))"

definition operationDrop :: Operation where
  "operationDrop context =
     bind (stackPop context) (\<lambda>object.
     decrementReferenceCount object)"

definition operationSwap :: Operation where
  "operationSwap context =
     bind (stackPop context) (\<lambda>b.
     bind (stackPop context) (\<lambda>a.
     bind (stackPush context b) (\<lambda>_.
     bind (stackPush context a) (\<lambda>_.
     bind (decrementReferenceCount a) (\<lambda>_.
     decrementReferenceCount b)))))"

section \<open>Operation dictionary (dictionary.c)\<close>

definition operations :: "(string \<times> Operation) list" where
  "operations =
     [(''+'', operationAdd), (''-'', operationSub), (''*'', operationMul),
      (''/'', operationDiv), (''.'', operationPrint), (''dup'', operationDup),
      (''drop'', operationDrop), (''swap'', operationSwap)]"

fun lookupOperation_loop :: "(string \<times> Operation) list \<Rightarrow> string \<Rightarrow> Operation option" where
  "lookupOperation_loop [] operation = None"
| "lookupOperation_loop (entry # entries) operation =
     (if streq operation (fst entry) then Some (snd entry)
      else lookupOperation_loop entries operation)"

definition lookupOperation :: "string \<Rightarrow> Operation option" where
  "lookupOperation operation = lookupOperation_loop operations operation"

section \<open>Execution engine (engine.c)\<close>

text \<open>The body of the \<open>for\<close> loop of \<open>execute\<close>, for the element \<open>object\<close>.\<close>

definition execute_body :: "addr \<Rightarrow> tfcontext \<Rightarrow> machine \<Rightarrow> unit outcome" where
  "execute_body object context =
     bind (deref object) (\<lambda>ob.
     if type ob = TF_OBJ_INT \<or> type ob = TF_OBJ_BOOL then stackPush context object
     else if type ob = TF_OBJ_SYMBOL
       then (case lookupOperation (str ob) of
               Some op \<Rightarrow> op context
             | None \<Rightarrow> exit_failure (UnknownWord (cstr (str ob))))
     else exit_failure UnexecutableObject)"

text \<open>
  The loop reads \<open>program_list->list_obj.len\<close> from the heap at every round, so it need not
  end when the program list itself grows while it runs: \<open>None\<close> is a run that never ends.
\<close>

partial_function (option) execute_loop ::
  "nat \<Rightarrow> addr \<Rightarrow> tfcontext \<Rightarrow> machine \<Rightarrow> unit outcome option" where
  "execute_loop i program_list context m =
     (case deref program_list m of
        Inl e \<Rightarrow> Some (Inl e)
      | Inr (pl, _) \<Rightarrow>
          if i < length (element pl)
          then (case execute_body (element pl ! i) context m of
                  Inl e \<Rightarrow> Some (Inl e)
                | Inr (_, m') \<Rightarrow> execute_loop (i + 1) program_list context m')
          else Some (Inr ((), m)))"

text \<open>\<open>execute\<close>; a \<open>NULL\<close> program is \<open>None\<close>.\<close>

definition execute :: "addr option \<Rightarrow> tfcontext \<Rightarrow> machine \<Rightarrow> unit outcome option" where
  "execute program_list context m =
     (case program_list of
        None \<Rightarrow> Some (return () m)
      | Some pl \<Rightarrow> execute_loop 0 pl context m)"

section \<open>Tokenizer and compiler (parser.c)\<close>

text \<open>\<open>isspace\<close> and \<open>isdigit\<close> of the C locale.\<close>

definition isspace :: "char \<Rightarrow> bool" where
  "isspace c = (c = CHR '' '' \<or> c = CHR 0x09 \<or> c = CHR 0x0A \<or> c = CHR 0x0B \<or> c = CHR 0x0C \<or> c = CHR 0x0D)"

definition isdigit :: "char \<Rightarrow> bool" where
  "isdigit c = (48 \<le> (of_char c :: nat) \<and> (of_char c :: nat) \<le> 57)"

text \<open>
  \<open>strtol(nptr, &end, 10)\<close> of the C library, for a \<open>long\<close> of \<open>lb\<close> bits: the value, and
  the number of characters between \<open>nptr\<close> and \<open>end\<close>.
\<close>

definition digit_value :: "char \<Rightarrow> int" where
  "digit_value c = of_char c - 48"

definition digits_value :: "string \<Rightarrow> int" where
  "digits_value ds = foldl (\<lambda>v c. 10 * v + digit_value c) 0 ds"

definition LONG_MAX :: "nat \<Rightarrow> int" where
  "LONG_MAX lb = 2 ^ (lb - 1) - 1"

definition LONG_MIN :: "nat \<Rightarrow> int" where
  "LONG_MIN lb = - (2 ^ (lb - 1))"

definition strtol :: "nat \<Rightarrow> string \<Rightarrow> int \<times> nat" where
  "strtol lb nptr =
     (let ws = takeWhile isspace nptr;
          s = dropWhile isspace nptr;
          negative = (s \<noteq> [] \<and> hd s = CHR ''-'');
          sign = (if s \<noteq> [] \<and> (hd s = CHR ''-'' \<or> hd s = CHR ''+'') then 1 else 0);
          ds = takeWhile isdigit (drop sign s);
          v = (if negative then - digits_value ds else digits_value ds)
      in if ds = [] then (0, 0)
         else (max (LONG_MIN lb) (min (LONG_MAX lb) v), length ws + sign + length ds))"

definition parserPeek :: "tfparser \<Rightarrow> char" where
  "parserPeek parser = (case program parser of [] \<Rightarrow> CHR 0x00 | c # _ \<Rightarrow> c)"

text \<open>\<open>parser->program[i]\<close>; the text ends with a NUL.\<close>

definition program_at :: "tfparser \<Rightarrow> nat \<Rightarrow> char" where
  "program_at parser i =
     (if i < length (program parser) then program parser ! i else CHR 0x00)"

definition parserAdvance :: "tfparser \<Rightarrow> tfparser" where
  "parserAdvance parser =
     (if parserPeek parser = CHR 0x00 then parser
      else (if parserPeek parser = CHR 0x0A
            then parser\<lparr>line := line parser + 1, column := 1\<rparr>
            else parser\<lparr>column := column parser + 1\<rparr>)
           \<lparr>program := tl (program parser)\<rparr>)"

lemma parserAdvance_shorter [termination_simp]:
  "parserPeek parser \<noteq> CHR 0x00 \<Longrightarrow>
     length (program (parserAdvance parser)) < length (program parser)"
  by (auto simp: parserAdvance_def parserPeek_def split: list.splits)

function parserSkipWhiteSpace :: "tfparser \<Rightarrow> tfparser" where
  "parserSkipWhiteSpace parser =
     (if parserPeek parser \<noteq> CHR 0x00 \<and> isspace (parserPeek parser)
      then parserSkipWhiteSpace (parserAdvance parser)
      else parser)"
  by pat_completeness auto
termination
  by (relation "measure (\<lambda>parser. length (program parser))") (auto simp: parserAdvance_shorter)

declare parserSkipWhiteSpace.simps [simp del]

text \<open>
  The loop of \<open>parseNumber\<close>, \<open>while (parser->program < end) parserAdvance(parser)\<close>. A
  pointer into the text is the rest of the text from there on, so \<open>p < q\<close> is
  \<open>length q < length p\<close>. \<open>None\<close> is a loop that never ends.
\<close>

partial_function (option) parseNumber_loop :: "string \<Rightarrow> tfparser \<Rightarrow> tfparser option" where
  "parseNumber_loop end parser =
     (if length end < length (program parser)
      then parseNumber_loop end (parserAdvance parser)
      else Some parser)"

definition parseNumber ::
  "nat \<Rightarrow> tfparser \<Rightarrow> machine \<Rightarrow> (tfparser \<times> addr option) outcome option" where
  "parseNumber lb parser m =
     (let start = program parser;
          (val, n) = strtol lb start;
          end = drop n start
      in case parseNumber_loop end parser of
           None \<Rightarrow> None
         | Some parser' \<Rightarrow>
             Some (bind (createIntegerObject (word_of_int val))
                     (\<lambda>object. return (parser', Some object)) m))"

function parseSymbol_loop :: "tfparser \<Rightarrow> tfparser" where
  "parseSymbol_loop parser =
     (if \<not> isspace (parserPeek parser) \<and> parserPeek parser \<noteq> CHR 0x00
      then parseSymbol_loop (parserAdvance parser)
      else parser)"
  by pat_completeness auto
termination
  by (relation "measure (\<lambda>parser. length (program parser))") (auto simp: parserAdvance_shorter)

declare parseSymbol_loop.simps [simp del]

definition parseSymbol :: "tfparser \<Rightarrow> machine \<Rightarrow> (tfparser \<times> addr option) outcome" where
  "parseSymbol parser =
     (let start = program parser;
          parser' = parseSymbol_loop parser;
          len_symbol = length start - length (program parser')
      in bind (createSymbolObject start len_symbol) (\<lambda>new_object.
         bind (deref new_object) (\<lambda>ob.
         if lookupOperation (str ob) = None
         then bind (decrementReferenceCount new_object) (\<lambda>_. return (parser', None))
         else return (parser', Some new_object))))"

text \<open>
  \<open>compile\<close> returns \<open>NULL\<close> after it has printed the diagnostic with the line and the
  column: the value \<open>Inl (SyntaxError line column)\<close>. The long of the host has \<open>lb\<close> bits.
\<close>

datatype syntax_error = SyntaxError int int

partial_function (option) compile_loop ::
  "nat \<Rightarrow> tfparser \<Rightarrow> addr \<Rightarrow> machine \<Rightarrow> (syntax_error + addr) outcome option" where
  "compile_loop lb parser0 program_list m =
     (if parserPeek parser0 \<noteq> CHR 0x00
      then
        (let parser = parserSkipWhiteSpace parser0;
             c = parserPeek parser
         in if c = CHR 0x00 then Some (return (Inr program_list) m)
            else
              (case (if isdigit c \<or> (c = CHR ''-'' \<and> isdigit (program_at parser 1))
                     then parseNumber lb parser m
                     else Some (parseSymbol parser m)) of
                 None \<Rightarrow> None
               | Some (Inl e) \<Rightarrow> Some (Inl e)
               | Some (Inr ((parser', None), m')) \<Rightarrow>
                   Some (bind (decrementReferenceCount program_list)
                           (\<lambda>_. return (Inl (SyntaxError (line parser) (column parser)))) m')
               | Some (Inr ((parser', Some new_object), m')) \<Rightarrow>
                   (case bind (listAppendObject program_list new_object)
                           (\<lambda>_. decrementReferenceCount new_object) m' of
                      Inl e \<Rightarrow> Some (Inl e)
                    | Inr (_, m'') \<Rightarrow> compile_loop lb parser' program_list m'')))
      else Some (return (Inr program_list) m))"

definition compile :: "nat \<Rightarrow> string \<Rightarrow> machine \<Rightarrow> (syntax_error + addr) outcome option" where
  "compile lb program_txt m =
     (case createListObject m of
        Inl e \<Rightarrow> Some (Inl e)
      | Inr (program_list, m') \<Rightarrow>
          compile_loop lb \<lparr>program = program_txt, line = 1, column = 1\<rparr> program_list m')"

section \<open>Entry point (main.c)\<close>

text \<open>
  \<open>main\<close> from the text of the program on: \<open>main_execute\<close> is \<open>main\<close> up to the return of
  \<open>execute\<close>, and \<open>main\<close> goes on to release the program and the context.
\<close>

definition main_execute ::
  "nat \<Rightarrow> string \<Rightarrow> machine \<Rightarrow> ((syntax_error + addr) \<times> tfcontext) outcome option" where
  "main_execute lb program_txt m =
     (case compile lb program_txt m of
        None \<Rightarrow> None
      | Some (Inl e) \<Rightarrow> Some (Inl e)
      | Some (Inr (prog, m1)) \<Rightarrow>
          (case createContext m1 of
             Inl e \<Rightarrow> Some (Inl e)
           | Inr (context, m2) \<Rightarrow>
               (case execute (case prog of Inl _ \<Rightarrow> None | Inr p \<Rightarrow> Some p) context m2 of
                  None \<Rightarrow> None
                | Some (Inl e) \<Rightarrow> Some (Inl e)
                | Some (Inr (_, m3)) \<Rightarrow> Some (Inr ((prog, context), m3)))))"

definition main :: "nat \<Rightarrow> string \<Rightarrow> machine \<Rightarrow> unit outcome option" where
  "main lb program_txt m =
     (case main_execute lb program_txt m of
        None \<Rightarrow> None
      | Some (Inl e) \<Rightarrow> Some (Inl e)
      | Some (Inr ((prog, context), m')) \<Rightarrow>
          Some (bind (case prog of Inl _ \<Rightarrow> return () | Inr p \<Rightarrow> decrementReferenceCount p)
                  (\<lambda>_. freeContext context) m'))"

text \<open>The process starts with no object allocated and nothing printed.\<close>

definition initial :: machine where
  "initial = \<lparr>heap = [], stdout = []\<rparr>"

declare execute_loop.simps [code] compile_loop.simps [code] parseNumber_loop.simps [code]

section \<open>Reading and writing the heap\<close>

definition cell :: "machine \<Rightarrow> addr \<Rightarrow> tfobj option" where
  "cell m p = (if p < length (heap m) then heap m ! p else None)"

lemma deref_cell:
  "deref p m = (case cell m p of None \<Rightarrow> Inl (UndefinedBehaviour, m) | Some ob \<Rightarrow> Inr (ob, m))"
  by (simp add: deref_def cell_def return_def exit_failure_def split: option.splits)

lemma store_cell:
  "store p ob m =
     (if cell m p \<noteq> None then Inr ((), m\<lparr>heap := (heap m)[p := Some ob]\<rparr>)
      else Inl (UndefinedBehaviour, m))"
  by (simp add: store_def cell_def return_def exit_failure_def)

lemma free_cell:
  "free p m =
     (if cell m p \<noteq> None then Inr ((), m\<lparr>heap := (heap m)[p := None]\<rparr>)
      else Inl (UndefinedBehaviour, m))"
  by (simp add: free_def cell_def return_def exit_failure_def)

lemma cell_update [simp]:
  "cell (m\<lparr>heap := (heap m)[p := c]\<rparr>) q = (if q = p \<and> p < length (heap m) then c else cell m q)"
  by (simp add: cell_def)

lemma cell_append [simp]:
  "cell (m\<lparr>heap := heap m @ [c]\<rparr>) q = (if q = length (heap m) then c else cell m q)"
  by (auto simp: cell_def nth_append)

lemma cell_stdout [simp]: "cell (m\<lparr>stdout := s\<rparr>) q = cell m q"
  by (simp add: cell_def)

lemma cell_Some_less: "cell m p = Some ob \<Longrightarrow> p < length (heap m)"
  by (simp add: cell_def split: if_splits)

lemma createIntegerObject_eq:
  "createIntegerObject n m =
     Inr (length (heap m),
          m\<lparr>heap := heap m @ [Some \<lparr>type = TF_OBJ_INT, refcount = 1, number = n, str = [],
                                   element = [], capacity = 0\<rparr>]\<rparr>)"
  by (simp add: createIntegerObject_def createObject_def bind_def return_def deref_cell store_cell)

lemma createSymbolObject_eq:
  "createSymbolObject s len m =
     Inr (length (heap m),
          m\<lparr>heap := heap m @ [Some \<lparr>type = TF_OBJ_SYMBOL, refcount = 1, number = 0,
                                   str = take len s, element = [], capacity = 0\<rparr>]\<rparr>)"
  by (simp add: createSymbolObject_def createStringObject_def createObject_def bind_def
      return_def deref_cell store_cell)

lemma createListObject_eq:
  "createListObject m =
     Inr (length (heap m),
          m\<lparr>heap := heap m @ [Some \<lparr>type = TF_OBJ_LIST, refcount = 1, number = 0, str = [],
                                   element = [], capacity = INITIAL_STACK_CAPACITY\<rparr>]\<rparr>)"
  by (simp add: createListObject_def createObject_def bind_def return_def deref_cell store_cell)

lemma decrementReferenceCount_nonlist:
  assumes "cell m p = Some ob" and "type ob \<noteq> TF_OBJ_LIST"
  shows "decrementReferenceCount p m =
     Inr ((), m\<lparr>heap := (heap m)[p := (if refcount ob = 1 then None
                                        else Some (ob\<lparr>refcount := refcount ob - 1\<rparr>))]\<rparr>)"
  using assms cell_Some_less [OF assms(1)]
  by (simp add: decrementReferenceCount.simps freeObject.simps bind_def return_def deref_cell
      store_cell free_cell)

lemma incrementReferenceCount_eq:
  assumes "cell m p = Some ob"
  shows "incrementReferenceCount p m =
     Inr ((), m\<lparr>heap := (heap m)[p := Some (ob\<lparr>refcount := refcount ob + 1\<rparr>)]\<rparr>)"
  using assms by (simp add: incrementReferenceCount_def bind_def deref_cell store_cell)

lemma listAppendObject_eq:
  assumes "cell m l = Some lo" and "cell m p = Some ob" and "p \<noteq> l"
    and "length (element lo) \<le> capacity lo" and "0 < capacity lo"
  shows "listAppendObject l p m =
     Inr ((), m\<lparr>heap := (heap m)
            [l := Some (lo\<lparr>capacity := (if capacity lo \<le> length (element lo)
                                        then capacity lo * 2 else capacity lo),
                           element := element lo @ [p]\<rparr>),
             p := Some (ob\<lparr>refcount := refcount ob + 1\<rparr>)]\<rparr>)"
  using assms cell_Some_less [OF assms(1)] cell_Some_less [OF assms(2)]
  by (auto simp: listAppendObject_def bind_def deref_cell store_cell return_def
      incrementReferenceCount_def)

lemma stackPop_eq:
  assumes "cell m (stack context) = Some s" and "element s = xs @ [p]"
  shows "stackPop context m =
     Inr (p, m\<lparr>heap := (heap m)[stack context := Some (s\<lparr>element := xs\<rparr>)]\<rparr>)"
  using assms by (simp add: stackPop_def bind_def deref_cell store_cell return_def)

lemma stackPop_empty:
  "cell m (stack context) = Some s \<Longrightarrow> element s = [] \<Longrightarrow>
     stackPop context m = Inl (StackUnderflow, m)"
  by (simp add: stackPop_def bind_def deref_cell exit_failure_def)

section \<open>The invariant of reference counting\<close>

text \<open>
  While a compiled program runs, every object that the program list, the stack or a local
  variable of the running operation points to is allocated, is not a list, and has a
  reference count that covers these pointers. \<open>Inv m P S prog toks stk vs loc ls\<close>: in
  the machine \<open>m\<close> the program list \<open>P\<close> holds the objects \<open>prog\<close>, which are the tokens
  \<open>toks\<close>; the stack \<open>S\<close> holds the objects \<open>stk\<close>, Integers of values \<open>vs\<close>; the local
  variables hold the objects \<open>loc\<close>, Integers of values \<open>ls\<close>.
\<close>

datatype token = TInt "32 word" | TSym string

definition int_cell :: "machine \<Rightarrow> addr \<Rightarrow> 32 word \<Rightarrow> bool" where
  "int_cell m e v = (\<exists>ob. cell m e = Some ob \<and> type ob = TF_OBJ_INT \<and> number ob = v)"

definition tok_cell :: "machine \<Rightarrow> addr \<Rightarrow> token \<Rightarrow> bool" where
  "tok_cell m e t =
     (case t of
        TInt v \<Rightarrow> int_cell m e v
      | TSym s \<Rightarrow> (\<exists>ob. cell m e = Some ob \<and> type ob = TF_OBJ_SYMBOL \<and> str ob = s))"

definition refs_ok :: "machine \<Rightarrow> addr list \<Rightarrow> bool" where
  "refs_ok m rs =
     (\<forall>e\<in>set rs. \<exists>ob. cell m e = Some ob \<and> type ob \<noteq> TF_OBJ_LIST \<and>
        int (count_list rs e) \<le> refcount ob)"

definition Inv ::
  "machine \<Rightarrow> addr \<Rightarrow> addr \<Rightarrow> addr list \<Rightarrow> token list \<Rightarrow> addr list \<Rightarrow> 32 word list \<Rightarrow>
     addr list \<Rightarrow> 32 word list \<Rightarrow> bool" where
  "Inv m P S prog toks stk vs loc ls =
     (P \<noteq> S \<and>
      (\<exists>pl. cell m P = Some pl \<and> type pl = TF_OBJ_LIST \<and> element pl = prog) \<and>
      (\<exists>sl. cell m S = Some sl \<and> type sl = TF_OBJ_LIST \<and> element sl = stk \<and>
         length stk \<le> capacity sl \<and> 0 < capacity sl) \<and>
      refs_ok m (prog @ stk @ loc) \<and>
      list_all2 (tok_cell m) prog toks \<and>
      list_all2 (int_cell m) stk vs \<and>
      list_all2 (int_cell m) loc ls)"

lemma refs_ok_D:
  "refs_ok m rs \<Longrightarrow> e \<in> set rs \<Longrightarrow>
     \<exists>ob. cell m e = Some ob \<and> type ob \<noteq> TF_OBJ_LIST \<and> int (count_list rs e) \<le> refcount ob"
  by (simp add: refs_ok_def)

text \<open>A change of one cell that is not a list and keeps what the cell holds.\<close>

lemma tok_cell_update:
  assumes "tok_cell m e t"
    and "e = p \<Longrightarrow> \<exists>ob. cell m p = Some ob \<and> c = Some (ob\<lparr>refcount := r\<rparr>)"
  shows "tok_cell (m\<lparr>heap := (heap m)[p := c]\<rparr>) e t"
  using assms by (cases t) (auto simp: tok_cell_def int_cell_def)

lemma int_cell_update:
  assumes "int_cell m e v"
    and "e = p \<Longrightarrow> \<exists>ob. cell m p = Some ob \<and> c = Some (ob\<lparr>refcount := r\<rparr>)"
  shows "int_cell (m\<lparr>heap := (heap m)[p := c]\<rparr>) e v"
  using assms by (auto simp: int_cell_def)

lemma tok_cell_other:
  "tok_cell m e t \<Longrightarrow> e \<noteq> p \<Longrightarrow> tok_cell (m\<lparr>heap := (heap m)[p := c]\<rparr>) e t"
  by (cases t) (auto simp: tok_cell_def int_cell_def)

lemma int_cell_other:
  "int_cell m e v \<Longrightarrow> e \<noteq> p \<Longrightarrow> int_cell (m\<lparr>heap := (heap m)[p := c]\<rparr>) e v"
  by (auto simp: int_cell_def)

lemma tok_cell_not_list: "tok_cell m e t \<Longrightarrow> cell m e = Some ob \<Longrightarrow> type ob \<noteq> TF_OBJ_LIST"
  by (cases t) (auto simp: tok_cell_def int_cell_def)

lemma int_cell_append:
  "int_cell m e v \<Longrightarrow> int_cell (m\<lparr>heap := heap m @ [c]\<rparr>) e v"
  by (auto simp: int_cell_def dest: cell_Some_less)

lemma tok_cell_append:
  "tok_cell m e t \<Longrightarrow> tok_cell (m\<lparr>heap := heap m @ [c]\<rparr>) e t"
  by (cases t) (auto simp: tok_cell_def int_cell_def dest: cell_Some_less)

lemma toks_transfer:
  assumes "list_all2 (tok_cell m) xs ys"
    and "\<And>x y. x \<in> set xs \<Longrightarrow> tok_cell m x y \<Longrightarrow> tok_cell m' x y"
  shows "list_all2 (tok_cell m') xs ys"
  using assms(1) by (rule list.rel_mono_strong) (rule assms(2))

lemma ints_transfer:
  assumes "list_all2 (int_cell m) xs ys"
    and "\<And>x y. x \<in> set xs \<Longrightarrow> int_cell m x y \<Longrightarrow> int_cell m' x y"
  shows "list_all2 (int_cell m') xs ys"
  using assms(1) by (rule list.rel_mono_strong) (rule assms(2))

lemma list_all2_snoc2 [simp]:
  "list_all2 R (xs @ [x]) (ys @ [y]) \<longleftrightarrow> list_all2 R xs ys \<and> R x y"
proof
  assume a: "list_all2 R (xs @ [x]) (ys @ [y])"
  then have "length xs = length ys" by (auto dest: list_all2_lengthD)
  with a show "list_all2 R xs ys \<and> R x y" by (simp add: list_all2_append)
next
  assume a: "list_all2 R xs ys \<and> R x y"
  then have "length xs = length ys" by (auto dest: list_all2_lengthD)
  with a show "list_all2 R (xs @ [x]) (ys @ [y])" by (simp add: list_all2_append)
qed

lemma Inv_pop:
  assumes "Inv m P S prog toks (stk @ [e]) (vs @ [v]) loc ls"
  obtains m' where "stackPop \<lparr>stack = S\<rparr> m = Inr (e, m')"
    and "Inv m' P S prog toks stk vs (e # loc) (v # ls)"
    and "stdout m' = stdout m" and "length (heap m') = length (heap m)"
proof -
  from assms obtain sl where sl: "cell m S = Some sl" "type sl = TF_OBJ_LIST"
    "element sl = stk @ [e]" "length stk + 1 \<le> capacity sl"
    by (auto simp: Inv_def)
  let ?m = "m\<lparr>heap := (heap m)[S := Some (sl\<lparr>element := stk\<rparr>)]\<rparr>"
  have pop: "stackPop \<lparr>stack = S\<rparr> m = Inr (e, ?m)"
    using sl by (simp add: stackPop_eq)
  have S: "S < length (heap m)" using sl(1) by (rule cell_Some_less)
  have r: "refs_ok m (prog @ (stk @ [e]) @ loc)"
    and t: "list_all2 (tok_cell m) prog toks"
    and i1: "list_all2 (int_cell m) stk vs" and i0: "int_cell m e v"
    and i2: "list_all2 (int_cell m) loc ls"
    using assms by (auto simp: Inv_def)
  have notS: "x \<noteq> S" if "x \<in> set (prog @ (stk @ [e]) @ loc)" for x
    using refs_ok_D [OF r that] sl by auto
  have refs: "refs_ok ?m (prog @ stk @ e # loc)"
    using r notS unfolding refs_ok_def by (auto simp: S)
  have t': "list_all2 (tok_cell ?m) prog toks"
    by (rule toks_transfer [OF t]) (use notS in \<open>auto intro: tok_cell_other\<close>)
  have i1': "list_all2 (int_cell ?m) stk vs"
    by (rule ints_transfer [OF i1]) (use notS in \<open>auto intro: int_cell_other\<close>)
  have i2': "list_all2 (int_cell ?m) (e # loc) (v # ls)"
    by (rule ints_transfer [of m]) (use notS i0 i2 in \<open>auto intro: int_cell_other\<close>)
  have "Inv ?m P S prog toks stk vs (e # loc) (v # ls)"
    using assms sl S refs t' i1' i2' unfolding Inv_def by auto
  with pop show thesis by (auto intro: that)
qed

lemma cell_heap: "cell (m\<lparr>heap := h\<rparr>) q = (if q < length h then h ! q else None)"
  by (simp add: cell_def)

lemma count_list_0: "x \<notin> set xs \<Longrightarrow> count_list xs x = 0"
  by (simp add: count_list_0_iff)

lemma Inv_pop_empty:
  assumes "Inv m P S prog toks [] vs loc ls"
  shows "stackPop \<lparr>stack = S\<rparr> m = Inl (StackUnderflow, m)"
  using assms by (auto simp: Inv_def intro: stackPop_empty)

lemma Inv_deref:
  assumes "int_cell m e v"
  obtains ob where "deref e m = Inr (ob, m)" and "type ob = TF_OBJ_INT" and "number ob = v"
  using assms by (auto simp: int_cell_def deref_cell)

lemma Inv_push:
  assumes "Inv m P S prog toks stk vs loc ls"
    and "e \<in> set (prog @ stk @ loc)" and "int_cell m e v"
  obtains m' where "stackPush \<lparr>stack = S\<rparr> e m = Inr ((), m')"
    and "Inv m' P S prog toks (stk @ [e]) (vs @ [v]) loc ls"
    and "stdout m' = stdout m" and "length (heap m') = length (heap m)"
proof -
  from assms obtain sl where sl: "cell m S = Some sl" "type sl = TF_OBJ_LIST"
    "element sl = stk" "length stk \<le> capacity sl" "0 < capacity sl"
    by (auto simp: Inv_def)
  have r: "refs_ok m (prog @ stk @ loc)"
    and t: "list_all2 (tok_cell m) prog toks"
    and i1: "list_all2 (int_cell m) stk vs"
    and i2: "list_all2 (int_cell m) loc ls"
    using assms by (auto simp: Inv_def)
  from assms(3) obtain ob where ob: "cell m e = Some ob" "type ob = TF_OBJ_INT" "number ob = v"
    by (auto simp: int_cell_def)
  have eS: "e \<noteq> S" using ob sl by auto
  have notS: "x \<noteq> S" if "x \<in> set (prog @ stk @ loc)" for x
    using refs_ok_D [OF r that] sl by auto
  define sl' where "sl' = sl\<lparr>capacity := (if capacity sl \<le> length (element sl)
     then capacity sl * 2 else capacity sl), element := element sl @ [e]\<rparr>"
  define m' where "m' = m\<lparr>heap := (heap m)[S := Some sl',
     e := Some (ob\<lparr>refcount := refcount ob + 1\<rparr>)]\<rparr>"
  have push: "stackPush \<lparr>stack = S\<rparr> e m = Inr ((), m')"
    unfolding stackPush_def m'_def sl'_def
    using listAppendObject_eq [OF sl(1) ob(1) eS] sl by simp
  have S: "S < length (heap m)" and e: "e < length (heap m)"
    using sl(1) ob(1) by (auto dest: cell_Some_less)
  have c: "cell m' x = (if x = e then Some (ob\<lparr>refcount := refcount ob + 1\<rparr>)
      else if x = S then Some sl' else cell m x)" for x
    using S e by (auto simp: m'_def cell_heap cell_def)
  have refs: "refs_ok m' (prog @ (stk @ [e]) @ loc)"
    unfolding refs_ok_def
  proof
    fix x assume x: "x \<in> set (prog @ (stk @ [e]) @ loc)"
    show "\<exists>ob. cell m' x = Some ob \<and> type ob \<noteq> TF_OBJ_LIST \<and>
       int (count_list (prog @ (stk @ [e]) @ loc) x) \<le> refcount ob"
    proof (cases "x = e")
      case True
      with refs_ok_D [OF r assms(2)] ob show ?thesis by (auto simp: c)
    next
      case False
      with x have "x \<in> set (prog @ stk @ loc)" by auto
      from refs_ok_D [OF r this] notS [OF this] False show ?thesis by (auto simp: c)
    qed
  qed
  have keep_t: "tok_cell m' x y" if "tok_cell m x y" for x y
    using that ob sl by (cases y) (auto simp: tok_cell_def int_cell_def c)
  have keep_i: "int_cell m' x y" if "int_cell m x y" for x y
    using that ob sl by (auto simp: int_cell_def c)
  have "Inv m' P S prog toks (stk @ [e]) (vs @ [v]) loc ls"
    unfolding Inv_def
  proof (intro conjI)
    show "P \<noteq> S" using assms(1) by (simp add: Inv_def)
    show "\<exists>pl. cell m' P = Some pl \<and> type pl = TF_OBJ_LIST \<and> element pl = prog"
      using assms(1) ob by (auto simp: Inv_def c)
    show "\<exists>sl. cell m' S = Some sl \<and> type sl = TF_OBJ_LIST \<and> element sl = stk @ [e] \<and>
       length (stk @ [e]) \<le> capacity sl \<and> 0 < capacity sl"
      using sl eS by (auto simp: c sl'_def)
    show "refs_ok m' (prog @ (stk @ [e]) @ loc)" by (rule refs)
    show "list_all2 (tok_cell m') prog toks"
      by (rule toks_transfer [OF t]) (rule keep_t)
    show "list_all2 (int_cell m') (stk @ [e]) (vs @ [v])"
      using ints_transfer [OF i1 keep_i] keep_i [OF assms(3)] by simp
    show "list_all2 (int_cell m') loc ls"
      by (rule ints_transfer [OF i2]) (rule keep_i)
  qed
  moreover have "stdout m' = stdout m" "length (heap m') = length (heap m)"
    by (simp_all add: m'_def)
  ultimately show thesis using push by (auto intro: that)
qed

lemma Inv_decr:
  assumes "Inv m P S prog toks stk vs (e # loc) (v # ls)"
  obtains m' where "decrementReferenceCount e m = Inr ((), m')"
    and "Inv m' P S prog toks stk vs loc ls"
    and "stdout m' = stdout m" and "length (heap m') = length (heap m)"
proof -
  from assms obtain sl where sl: "cell m S = Some sl" "type sl = TF_OBJ_LIST"
    "element sl = stk" "length stk \<le> capacity sl" "0 < capacity sl"
    by (auto simp: Inv_def)
  from assms obtain pl where pl: "cell m P = Some pl" "type pl = TF_OBJ_LIST" "element pl = prog"
    by (auto simp: Inv_def)
  have r: "refs_ok m (prog @ stk @ e # loc)"
    and t: "list_all2 (tok_cell m) prog toks"
    and i1: "list_all2 (int_cell m) stk vs"
    and i2: "list_all2 (int_cell m) loc ls"
    using assms by (auto simp: Inv_def)
  from refs_ok_D [OF r, of e] obtain ob where ob: "cell m e = Some ob" "type ob \<noteq> TF_OBJ_LIST"
    "int (count_list (prog @ stk @ e # loc) e) \<le> refcount ob"
    by auto
  define c' where "c' = (if refcount ob = 1 then None
     else Some (ob\<lparr>refcount := refcount ob - 1\<rparr>))"
  define m' where "m' = m\<lparr>heap := (heap m)[e := c']\<rparr>"
  have dec: "decrementReferenceCount e m = Inr ((), m')"
    unfolding m'_def c'_def by (rule decrementReferenceCount_nonlist [OF ob(1,2)])
  have e: "e < length (heap m)" using ob(1) by (rule cell_Some_less)
  have c: "cell m' x = (if x = e then c' else cell m x)" for x
    using e by (simp add: m'_def)
  have cnt: "int (count_list (prog @ stk @ loc) e) + 1 \<le> refcount ob"
    using ob(3) by simp
  have live: "c' = Some (ob\<lparr>refcount := refcount ob - 1\<rparr>)" if "e \<in> set (prog @ stk @ loc)"
  proof -
    have "count_list (prog @ stk @ loc) e \<noteq> 0"
      using that unfolding count_list_0_iff by simp
    then have "0 < count_list (prog @ stk @ loc) e" by simp
    with cnt have "refcount ob \<noteq> 1" by linarith
    then show ?thesis by (simp add: c'_def)
  qed
  have refs: "refs_ok m' (prog @ stk @ loc)"
    unfolding refs_ok_def
  proof
    fix x assume x: "x \<in> set (prog @ stk @ loc)"
    then have x': "x \<in> set (prog @ stk @ e # loc)" by auto
    show "\<exists>ob. cell m' x = Some ob \<and> type ob \<noteq> TF_OBJ_LIST \<and>
       int (count_list (prog @ stk @ loc) x) \<le> refcount ob"
    proof (cases "x = e")
      case True
      with live x ob cnt show ?thesis by (auto simp: c)
    next
      case False
      with refs_ok_D [OF r x'] show ?thesis by (auto simp: c)
    qed
  qed
  have keep_t: "tok_cell m' x y" if "tok_cell m x y" "x \<in> set (prog @ stk @ loc)" for x y
    using that ob live by (cases y) (auto simp: tok_cell_def int_cell_def c)
  have keep_i: "int_cell m' x y" if "int_cell m x y" "x \<in> set (prog @ stk @ loc)" for x y
    using that ob live by (auto simp: int_cell_def c)
  have "Inv m' P S prog toks stk vs loc ls"
    unfolding Inv_def
  proof (intro conjI)
    show "P \<noteq> S" using assms(1) by (simp add: Inv_def)
    show "\<exists>pl. cell m' P = Some pl \<and> type pl = TF_OBJ_LIST \<and> element pl = prog"
      using pl ob by (auto simp: c)
    show "\<exists>sl. cell m' S = Some sl \<and> type sl = TF_OBJ_LIST \<and> element sl = stk \<and>
       length stk \<le> capacity sl \<and> 0 < capacity sl"
      using sl ob by (auto simp: c)
    show "refs_ok m' (prog @ stk @ loc)" by (rule refs)
    show "list_all2 (tok_cell m') prog toks"
      by (rule toks_transfer [OF t]) (auto intro: keep_t)
    show "list_all2 (int_cell m') stk vs"
      by (rule ints_transfer [OF i1]) (auto intro: keep_i)
    show "list_all2 (int_cell m') loc ls"
      by (rule ints_transfer [OF i2]) (auto intro: keep_i)
  qed
  moreover have "stdout m' = stdout m" "length (heap m') = length (heap m)"
    by (simp_all add: m'_def)
  ultimately show thesis using dec by (auto intro: that)
qed

lemma Inv_create:
  assumes "Inv m P S prog toks stk vs loc ls"
  obtains m' where "createIntegerObject n m = Inr (length (heap m), m')"
    and "Inv m' P S prog toks stk vs (length (heap m) # loc) (n # ls)"
    and "stdout m' = stdout m" and "length (heap m') = Suc (length (heap m))"
proof -
  define ob where "ob = \<lparr>type = TF_OBJ_INT, refcount = 1, number = n, str = [],
     element = [], capacity = 0\<rparr>"
  define m' where "m' = m\<lparr>heap := heap m @ [Some ob]\<rparr>"
  have cr: "createIntegerObject n m = Inr (length (heap m), m')"
    by (simp add: createIntegerObject_eq m'_def ob_def)
  have r: "refs_ok m (prog @ stk @ loc)"
    and t: "list_all2 (tok_cell m) prog toks"
    and i1: "list_all2 (int_cell m) stk vs"
    and i2: "list_all2 (int_cell m) loc ls"
    using assms by (auto simp: Inv_def)
  have c: "cell m' x = (if x = length (heap m) then Some ob else cell m x)" for x
    by (simp add: m'_def)
  have old: "x < length (heap m)" if "x \<in> set (prog @ stk @ loc)" for x
    using refs_ok_D [OF r that] by (auto dest: cell_Some_less)
  then have fresh: "length (heap m) \<notin> set (prog @ stk @ loc)" by blast
  have refs: "refs_ok m' (prog @ stk @ length (heap m) # loc)"
    unfolding refs_ok_def
  proof
    fix x assume x: "x \<in> set (prog @ stk @ length (heap m) # loc)"
    show "\<exists>ob. cell m' x = Some ob \<and> type ob \<noteq> TF_OBJ_LIST \<and>
       int (count_list (prog @ stk @ length (heap m) # loc) x) \<le> refcount ob"
    proof (cases "x = length (heap m)")
      case True
      with fresh show ?thesis by (auto simp: c ob_def count_list_0)
    next
      case False
      with x have "x \<in> set (prog @ stk @ loc)" by auto
      from refs_ok_D [OF r this] False show ?thesis by (auto simp: c)
    qed
  qed
  have keep_t: "tok_cell m' x y" if "tok_cell m x y" for x y
    using that unfolding m'_def by (rule tok_cell_append)
  have keep_i: "int_cell m' x y" if "int_cell m x y" for x y
    using that unfolding m'_def by (rule int_cell_append)
  have new: "int_cell m' (length (heap m)) n"
    by (simp add: int_cell_def c ob_def)
  have "Inv m' P S prog toks stk vs (length (heap m) # loc) (n # ls)"
    using assms refs toks_transfer [OF t keep_t] ints_transfer [OF i1 keep_i]
      ints_transfer [OF i2 keep_i] new
    unfolding Inv_def by (auto simp: c dest: cell_Some_less)
  moreover have "stdout m' = stdout m" "length (heap m') = Suc (length (heap m))"
    by (simp_all add: m'_def)
  ultimately show thesis using cr by (auto intro: that)
qed

lemma int_cell_stdout [simp]: "int_cell (m\<lparr>stdout := s\<rparr>) = int_cell m"
  by (intro ext) (simp add: int_cell_def)

lemma tok_cell_stdout [simp]: "tok_cell (m\<lparr>stdout := s\<rparr>) = tok_cell m"
  by (intro ext) (simp add: tok_cell_def split: token.splits)

lemma refs_ok_stdout [simp]: "refs_ok (m\<lparr>stdout := s\<rparr>) = refs_ok m"
  by (intro ext) (simp add: refs_ok_def)

lemma Inv_stdout [simp]:
  "Inv (m\<lparr>stdout := s\<rparr>) P S prog toks stk vs loc ls = Inv m P S prog toks stk vs loc ls"
  by (simp add: Inv_def)

lemma list_all2_snoc1:
  assumes "list_all2 R xs (ys @ [y])"
  obtains xs' x where "xs = xs' @ [x]" and "list_all2 R xs' ys" and "R x y"
proof -
  from assms have "length xs = Suc (length ys)" by (auto dest: list_all2_lengthD)
  then have "xs \<noteq> []" by auto
  then obtain xs' x where xs: "xs = xs' @ [x]" by (metis append_butlast_last_id)
  with assms show thesis by (auto intro: that)
qed

text \<open>The two pops that open a binary operation, with the rest of the operation \<open>k\<close>.\<close>

lemma Inv_pop2:
  assumes "Inv m P S prog toks stk vs [] []"
  shows "(length vs < 2 \<and>
          (\<exists>m' stk' loc ls.
             bind (stackPop \<lparr>stack = S\<rparr>) (\<lambda>b. bind (stackPop \<lparr>stack = S\<rparr>) (\<lambda>a. k a b)) m
               = Inl (StackUnderflow, m') \<and>
             Inv m' P S prog toks stk' [] loc ls \<and> stdout m' = stdout m)) \<or>
         (\<exists>xs a b ys pa pb m2.
             vs = xs @ [a, b] \<and> stk = ys @ [pa, pb] \<and>
             bind (stackPop \<lparr>stack = S\<rparr>) (\<lambda>b. bind (stackPop \<lparr>stack = S\<rparr>) (\<lambda>a. k a b)) m
               = k pa pb m2 \<and>
             Inv m2 P S prog toks ys xs [pa, pb] [a, b] \<and> stdout m2 = stdout m \<and>
             length (heap m2) = length (heap m))"
proof (cases vs rule: rev_cases)
  case Nil
  with assms have "stk = []" by (auto simp: Inv_def)
  with assms Nil have "stackPop \<lparr>stack = S\<rparr> m = Inl (StackUnderflow, m)"
    by (auto intro: Inv_pop_empty)
  with assms Nil \<open>stk = []\<close> show ?thesis
    by (auto simp: bind_def intro!: exI [of _ m])
next
  case (snoc vs1 b)
  with assms obtain stk1 pb where stk: "stk = stk1 @ [pb]"
    by (auto simp: Inv_def elim: list_all2_snoc1)
  from assms [unfolded snoc stk] obtain m1 where
    m1: "stackPop \<lparr>stack = S\<rparr> m = Inr (pb, m1)"
      "Inv m1 P S prog toks stk1 vs1 [pb] [b]" "stdout m1 = stdout m"
      "length (heap m1) = length (heap m)"
    by (rule Inv_pop)
  show ?thesis
  proof (cases vs1 rule: rev_cases)
    case Nil
    with m1(2) have "stk1 = []" by (auto simp: Inv_def)
    with m1(2) Nil have "stackPop \<lparr>stack = S\<rparr> m1 = Inl (StackUnderflow, m1)"
      by (auto intro: Inv_pop_empty)
    with m1 snoc Nil \<open>stk1 = []\<close> show ?thesis
      by (auto simp: bind_def intro!: exI [of _ m1])
  next
    case (snoc xs a)
    with m1(2) obtain ys pa where stk1: "stk1 = ys @ [pa]"
      by (auto simp: Inv_def elim: list_all2_snoc1)
    from m1(2) [unfolded snoc stk1] obtain m2 where
      m2: "stackPop \<lparr>stack = S\<rparr> m1 = Inr (pa, m2)"
        "Inv m2 P S prog toks ys xs [pa, pb] [a, b]" "stdout m2 = stdout m1"
        "length (heap m2) = length (heap m1)"
      by (rule Inv_pop)
    have "bind (stackPop \<lparr>stack = S\<rparr>) (\<lambda>b. bind (stackPop \<lparr>stack = S\<rparr>) (\<lambda>a. k a b)) m
        = k pa pb m2"
      using m1(1) m2(1) by (simp add: bind_def)
    with m1 m2 snoc \<open>vs = vs1 @ [b]\<close> stk stk1 show ?thesis
      by (intro disjI2 exI [of _ xs] exI [of _ a] exI [of _ b] exI [of _ ys] exI [of _ pa]
          exI [of _ pb] exI [of _ m2]) simp
  qed
qed

text \<open>What follows the two pops in \<open>+\<close>, \<open>-\<close>, \<open>*\<close> and, for a divisor that is not 0, in \<open>/\<close>.\<close>

lemma Inv_arith_tail:
  assumes "Inv m P S prog toks ys xs [pa, pb] [a, b]"
  shows "\<exists>m'. bind (createIntegerObject v) (\<lambda>result.
               bind (stackPush \<lparr>stack = S\<rparr> result) (\<lambda>_.
               bind (decrementReferenceCount result) (\<lambda>_.
               bind (decrementReferenceCount pa) (\<lambda>_.
               decrementReferenceCount pb)))) m = Inr ((), m') \<and>
            Inv m' P S prog toks (ys @ [length (heap m)]) (xs @ [v]) [] [] \<and>
            stdout m' = stdout m"
proof -
  let ?r = "length (heap m)"
  from assms obtain m3 where m3: "createIntegerObject v m = Inr (?r, m3)"
    "Inv m3 P S prog toks ys xs [?r, pa, pb] [v, a, b]" "stdout m3 = stdout m"
    by (rule Inv_create)
  have new: "int_cell m3 ?r v" using m3(2) by (simp add: Inv_def)
  have "?r \<in> set (prog @ ys @ [?r, pa, pb])" by simp
  from Inv_push [OF m3(2) this new] obtain m4 where m4: "stackPush \<lparr>stack = S\<rparr> ?r m3 = Inr ((), m4)"
    "Inv m4 P S prog toks (ys @ [?r]) (xs @ [v]) [?r, pa, pb] [v, a, b]" "stdout m4 = stdout m3"
    by auto
  from m4(2) obtain m5 where m5: "decrementReferenceCount ?r m4 = Inr ((), m5)"
    "Inv m5 P S prog toks (ys @ [?r]) (xs @ [v]) [pa, pb] [a, b]" "stdout m5 = stdout m4"
    by (rule Inv_decr)
  from m5(2) obtain m6 where m6: "decrementReferenceCount pa m5 = Inr ((), m6)"
    "Inv m6 P S prog toks (ys @ [?r]) (xs @ [v]) [pb] [b]" "stdout m6 = stdout m5"
    by (rule Inv_decr)
  from m6(2) obtain m7 where m7: "decrementReferenceCount pb m6 = Inr ((), m7)"
    "Inv m7 P S prog toks (ys @ [?r]) (xs @ [v]) [] []" "stdout m7 = stdout m6"
    by (rule Inv_decr)
  show ?thesis
    using m3 m4 m5 m6 m7 by (auto simp: bind_def)
qed

section \<open>The operations on a stack of 32-bit values\<close>

type_synonym vstate = "32 word list \<times> string"

definition v_binary :: "(32 word \<Rightarrow> 32 word \<Rightarrow> 32 word) \<Rightarrow> vstate \<Rightarrow> fatal \<times> vstate + vstate" where
  "v_binary f s =
     (case s of (vs, out) \<Rightarrow>
        if length vs < 2 then Inl (StackUnderflow, ([], out))
        else Inr (butlast (butlast vs) @ [f (last (butlast vs)) (last vs)], out))"

definition v_div :: "vstate \<Rightarrow> fatal \<times> vstate + vstate" where
  "v_div s =
     (case s of (vs, out) \<Rightarrow>
        if length vs < 2 then Inl (StackUnderflow, ([], out))
        else if last vs = 0 then Inl (DivisionByZero, (butlast (butlast vs), out))
        else (case int_div (last (butlast vs)) (last vs) of
                None \<Rightarrow> Inl (UndefinedBehaviour, (butlast (butlast vs), out))
              | Some q \<Rightarrow> Inr (butlast (butlast vs) @ [q], out)))"

definition v_print :: "vstate \<Rightarrow> fatal \<times> vstate + vstate" where
  "v_print s =
     (case s of (vs, out) \<Rightarrow>
        if vs = [] then Inl (StackUnderflow, ([], out))
        else Inr (butlast vs, out @ decimal (sint (last vs)) @ '' ''))"

definition v_dup :: "vstate \<Rightarrow> fatal \<times> vstate + vstate" where
  "v_dup s = (case s of (vs, out) \<Rightarrow> if vs = [] then Inr (vs, out) else Inr (vs @ [last vs], out))"

definition v_drop :: "vstate \<Rightarrow> fatal \<times> vstate + vstate" where
  "v_drop s =
     (case s of (vs, out) \<Rightarrow>
        if vs = [] then Inl (StackUnderflow, ([], out)) else Inr (butlast vs, out))"

definition v_swap :: "vstate \<Rightarrow> fatal \<times> vstate + vstate" where
  "v_swap s =
     (case s of (vs, out) \<Rightarrow>
        if length vs < 2 then Inl (StackUnderflow, ([], out))
        else Inr (butlast (butlast vs) @ [last vs, last (butlast vs)], out))"

definition corresponds ::
  "addr \<Rightarrow> addr \<Rightarrow> addr list \<Rightarrow> token list \<Rightarrow> unit outcome \<Rightarrow> fatal \<times> vstate + vstate \<Rightarrow> bool" where
  "corresponds P S prog toks r a =
     (case a of
        Inr (vs', out') \<Rightarrow>
          (\<exists>m' stk'. r = Inr ((), m') \<and> Inv m' P S prog toks stk' vs' [] [] \<and> stdout m' = out')
      | Inl (e, (vs', out')) \<Rightarrow>
          (\<exists>m' stk' loc ls. r = Inl (e, m') \<and> Inv m' P S prog toks stk' vs' loc ls \<and>
             stdout m' = out'))"

lemma bind_assoc: "bind (bind f g) h = bind f (\<lambda>x. bind (g x) h)"
  by (intro ext) (simp add: bind_def split: sum.splits prod.splits)

lemma bind_Inr_eq: "f m = Inr (x, m') \<Longrightarrow> bind f g m = g x m'"
  by (simp add: bind_def)

lemma bind_Inl_eq: "f m = Inl e \<Longrightarrow> bind f g m = Inl e"
  by (simp add: bind_def)

lemma butlast_two [simp]: "butlast (xs @ [a, b]) = xs @ [a]"
  by (simp add: butlast_append)

lemma Inv_stack_empty: "Inv m P S prog toks stk [] loc ls \<Longrightarrow> stk = []"
  by (simp add: Inv_def)

lemma corresponds_arith:
  assumes inv: "Inv m P S prog toks stk vs [] []"
    and op: "\<And>m. op \<lparr>stack = S\<rparr> m =
      bind (stackPop \<lparr>stack = S\<rparr>) (\<lambda>b.
      bind (stackPop \<lparr>stack = S\<rparr>) (\<lambda>a.
      bind (deref a) (\<lambda>oa.
      bind (deref b) (\<lambda>ob.
      bind (if type oa = TF_OBJ_INT \<and> type ob = TF_OBJ_INT
            then bind (createIntegerObject (f (number oa) (number ob))) (\<lambda>result.
                 bind (stackPush \<lparr>stack = S\<rparr> result) (\<lambda>_.
                 decrementReferenceCount result))
            else return ()) (\<lambda>_.
      bind (decrementReferenceCount a) (\<lambda>_.
      decrementReferenceCount b)))))) m"
  shows "corresponds P S prog toks (op \<lparr>stack = S\<rparr> m) (v_binary f (vs, stdout m))"
  using Inv_pop2 [OF inv, where k = "\<lambda>a b.
      bind (deref a) (\<lambda>oa.
      bind (deref b) (\<lambda>ob.
      bind (if type oa = TF_OBJ_INT \<and> type ob = TF_OBJ_INT
            then bind (createIntegerObject (f (number oa) (number ob))) (\<lambda>result.
                 bind (stackPush \<lparr>stack = S\<rparr> result) (\<lambda>_.
                 decrementReferenceCount result))
            else return ()) (\<lambda>_.
      bind (decrementReferenceCount a) (\<lambda>_.
      decrementReferenceCount b))))"]
proof (elim disjE exE conjE)
  fix m' stk' loc ls
  assume "length vs < 2" "Inv m' P S prog toks stk' [] loc ls" "stdout m' = stdout m"
    and "bind (stackPop \<lparr>stack = S\<rparr>) (\<lambda>b. bind (stackPop \<lparr>stack = S\<rparr>) (\<lambda>a.
      bind (deref a) (\<lambda>oa.
      bind (deref b) (\<lambda>ob.
      bind (if type oa = TF_OBJ_INT \<and> type ob = TF_OBJ_INT
            then bind (createIntegerObject (f (number oa) (number ob))) (\<lambda>result.
                 bind (stackPush \<lparr>stack = S\<rparr> result) (\<lambda>_.
                 decrementReferenceCount result))
            else return ()) (\<lambda>_.
      bind (decrementReferenceCount a) (\<lambda>_.
      decrementReferenceCount b)))))) m = Inl (StackUnderflow, m')"
  then show ?thesis
    by (auto simp: corresponds_def v_binary_def op)
next
  fix xs a b ys pa pb m2
  assume vs: "vs = xs @ [a, b]" and m2: "Inv m2 P S prog toks ys xs [pa, pb] [a, b]"
    "stdout m2 = stdout m"
    and eq: "bind (stackPop \<lparr>stack = S\<rparr>) (\<lambda>b. bind (stackPop \<lparr>stack = S\<rparr>) (\<lambda>a.
      bind (deref a) (\<lambda>oa.
      bind (deref b) (\<lambda>ob.
      bind (if type oa = TF_OBJ_INT \<and> type ob = TF_OBJ_INT
            then bind (createIntegerObject (f (number oa) (number ob))) (\<lambda>result.
                 bind (stackPush \<lparr>stack = S\<rparr> result) (\<lambda>_.
                 decrementReferenceCount result))
            else return ()) (\<lambda>_.
      bind (decrementReferenceCount a) (\<lambda>_.
      decrementReferenceCount b)))))) m =
      bind (deref pa) (\<lambda>oa.
      bind (deref pb) (\<lambda>ob.
      bind (if type oa = TF_OBJ_INT \<and> type ob = TF_OBJ_INT
            then bind (createIntegerObject (f (number oa) (number ob))) (\<lambda>result.
                 bind (stackPush \<lparr>stack = S\<rparr> result) (\<lambda>_.
                 decrementReferenceCount result))
            else return ()) (\<lambda>_.
      bind (decrementReferenceCount pa) (\<lambda>_.
      decrementReferenceCount pb)))) m2"
  from m2(1) have "int_cell m2 pa a" "int_cell m2 pb b" by (auto simp: Inv_def)
  then obtain oa ob where oa: "deref pa m2 = Inr (oa, m2)" "type oa = TF_OBJ_INT" "number oa = a"
    and ob: "deref pb m2 = Inr (ob, m2)" "type ob = TF_OBJ_INT" "number ob = b"
    by (auto elim!: Inv_deref)
  from Inv_arith_tail [OF m2(1), of "f a b"] obtain m' where
    m': "bind (createIntegerObject (f a b)) (\<lambda>result.
           bind (stackPush \<lparr>stack = S\<rparr> result) (\<lambda>_.
           bind (decrementReferenceCount result) (\<lambda>_.
           bind (decrementReferenceCount pa) (\<lambda>_.
           decrementReferenceCount pb)))) m2 = Inr ((), m')"
      "Inv m' P S prog toks (ys @ [length (heap m2)]) (xs @ [f a b]) [] []"
      "stdout m' = stdout m2"
    by auto
  have "op \<lparr>stack = S\<rparr> m = Inr ((), m')"
    unfolding op eq using m'(1)
    by (simp add: bind_Inr_eq [of "deref pa" m2, OF oa(1)]
        bind_Inr_eq [of "deref pb" m2, OF ob(1)] oa ob bind_assoc)
  with m' m2 vs show ?thesis
    by (auto simp: corresponds_def v_binary_def)
qed

lemma context_eq: "context = \<lparr>stack = stack context\<rparr>"
  by simp

lemma corresponds_Add:
  "Inv m P S prog toks stk vs [] [] \<Longrightarrow>
     corresponds P S prog toks (operationAdd \<lparr>stack = S\<rparr> m) (v_binary (+) (vs, stdout m))"
  by (rule corresponds_arith) (simp_all add: operationAdd_def)

lemma corresponds_Sub:
  "Inv m P S prog toks stk vs [] [] \<Longrightarrow>
     corresponds P S prog toks (operationSub \<lparr>stack = S\<rparr> m) (v_binary (-) (vs, stdout m))"
  by (rule corresponds_arith) (simp_all add: operationSub_def)

lemma corresponds_Mul:
  "Inv m P S prog toks stk vs [] [] \<Longrightarrow>
     corresponds P S prog toks (operationMul \<lparr>stack = S\<rparr> m) (v_binary (*) (vs, stdout m))"
  by (rule corresponds_arith) (simp_all add: operationMul_def)

lemma corresponds_Div:
  assumes inv: "Inv m P S prog toks stk vs [] []"
  shows "corresponds P S prog toks (operationDiv \<lparr>stack = S\<rparr> m) (v_div (vs, stdout m))"
proof -
  define k where "k = (\<lambda>a b.
      bind (deref a) (\<lambda>oa.
      bind (deref b) (\<lambda>ob.
      bind (if type oa = TF_OBJ_INT \<and> type ob = TF_OBJ_INT
            then if number ob = 0 then exit_failure DivisionByZero
                 else (case int_div (number oa) (number ob) of
                         None \<Rightarrow> exit_failure UndefinedBehaviour
                       | Some q \<Rightarrow>
                           bind (createIntegerObject q) (\<lambda>result.
                           bind (stackPush \<lparr>stack = S\<rparr> result) (\<lambda>_.
                           decrementReferenceCount result)))
            else return ()) (\<lambda>_.
      bind (decrementReferenceCount a) (\<lambda>_.
      decrementReferenceCount b)))))"
  have op: "operationDiv \<lparr>stack = S\<rparr> m =
      bind (stackPop \<lparr>stack = S\<rparr>) (\<lambda>b. bind (stackPop \<lparr>stack = S\<rparr>) (\<lambda>a. k a b)) m"
    by (simp add: operationDiv_def k_def)
  from Inv_pop2 [OF inv, of k] show ?thesis
  proof (elim disjE exE conjE)
    fix m' stk' loc ls
    assume "length vs < 2" "Inv m' P S prog toks stk' [] loc ls" "stdout m' = stdout m"
      and "bind (stackPop \<lparr>stack = S\<rparr>) (\<lambda>b. bind (stackPop \<lparr>stack = S\<rparr>) (\<lambda>a. k a b)) m
        = Inl (StackUnderflow, m')"
    then show ?thesis
      by (auto simp: corresponds_def v_div_def op)
  next
    fix xs a b ys pa pb m2
    assume vs: "vs = xs @ [a, b]" and m2: "Inv m2 P S prog toks ys xs [pa, pb] [a, b]"
      "stdout m2 = stdout m"
      and eq: "bind (stackPop \<lparr>stack = S\<rparr>) (\<lambda>b. bind (stackPop \<lparr>stack = S\<rparr>) (\<lambda>a. k a b)) m
        = k pa pb m2"
    from m2(1) have "int_cell m2 pa a" "int_cell m2 pb b" by (auto simp: Inv_def)
    then obtain oa ob where oa: "deref pa m2 = Inr (oa, m2)" "type oa = TF_OBJ_INT" "number oa = a"
      and ob: "deref pb m2 = Inr (ob, m2)" "type ob = TF_OBJ_INT" "number ob = b"
      by (auto elim!: Inv_deref)
    show ?thesis
    proof (cases "b = 0")
      case True
      have "k pa pb m2 = Inl (DivisionByZero, m2)"
        unfolding k_def using True
        by (simp add: bind_Inr_eq [of "deref pa" m2, OF oa(1)]
            bind_Inr_eq [of "deref pb" m2, OF ob(1)] oa ob bind_def exit_failure_def)
      with m2 vs True show ?thesis
        by (auto simp: corresponds_def v_div_def op eq)
    next
      case False
      show ?thesis
      proof (cases "int_div a b")
        case None
        have "k pa pb m2 = Inl (UndefinedBehaviour, m2)"
          unfolding k_def using False None
          by (simp add: bind_Inr_eq [of "deref pa" m2, OF oa(1)]
              bind_Inr_eq [of "deref pb" m2, OF ob(1)] oa ob bind_def exit_failure_def)
        with m2 vs False None show ?thesis
          by (auto simp: corresponds_def v_div_def op eq)
      next
        case (Some q)
        from Inv_arith_tail [OF m2(1), of q] obtain m' where
          m': "bind (createIntegerObject q) (\<lambda>result.
                 bind (stackPush \<lparr>stack = S\<rparr> result) (\<lambda>_.
                 bind (decrementReferenceCount result) (\<lambda>_.
                 bind (decrementReferenceCount pa) (\<lambda>_.
                 decrementReferenceCount pb)))) m2 = Inr ((), m')"
            "Inv m' P S prog toks (ys @ [length (heap m2)]) (xs @ [q]) [] []"
            "stdout m' = stdout m2"
          by auto
        have "k pa pb m2 = Inr ((), m')"
          unfolding k_def using m'(1) False Some
          by (simp add: bind_Inr_eq [of "deref pa" m2, OF oa(1)]
              bind_Inr_eq [of "deref pb" m2, OF ob(1)] oa ob bind_assoc)
        with m' m2 vs False Some show ?thesis
          by (auto simp: corresponds_def v_div_def op eq)
      qed
    qed
  qed
qed

lemma corresponds_Swap:
  assumes inv: "Inv m P S prog toks stk vs [] []"
  shows "corresponds P S prog toks (operationSwap \<lparr>stack = S\<rparr> m) (v_swap (vs, stdout m))"
proof -
  define k where "k = (\<lambda>a b.
      bind (stackPush \<lparr>stack = S\<rparr> b) (\<lambda>_.
      bind (stackPush \<lparr>stack = S\<rparr> a) (\<lambda>_.
      bind (decrementReferenceCount a) (\<lambda>_.
      decrementReferenceCount b))))"
  have op: "operationSwap \<lparr>stack = S\<rparr> m =
      bind (stackPop \<lparr>stack = S\<rparr>) (\<lambda>b. bind (stackPop \<lparr>stack = S\<rparr>) (\<lambda>a. k a b)) m"
    by (simp add: operationSwap_def k_def)
  from Inv_pop2 [OF inv, of k] show ?thesis
  proof (elim disjE exE conjE)
    fix m' stk' loc ls
    assume "length vs < 2" "Inv m' P S prog toks stk' [] loc ls" "stdout m' = stdout m"
      and "bind (stackPop \<lparr>stack = S\<rparr>) (\<lambda>b. bind (stackPop \<lparr>stack = S\<rparr>) (\<lambda>a. k a b)) m
        = Inl (StackUnderflow, m')"
    then show ?thesis
      by (auto simp: corresponds_def v_swap_def op)
  next
    fix xs a b ys pa pb m2
    assume vs: "vs = xs @ [a, b]" and m2: "Inv m2 P S prog toks ys xs [pa, pb] [a, b]"
      "stdout m2 = stdout m"
      and eq: "bind (stackPop \<lparr>stack = S\<rparr>) (\<lambda>b. bind (stackPop \<lparr>stack = S\<rparr>) (\<lambda>a. k a b)) m
        = k pa pb m2"
    from m2(1) have ia: "int_cell m2 pa a" and ib: "int_cell m2 pb b" by (auto simp: Inv_def)
    have "pb \<in> set (prog @ ys @ [pa, pb])" by simp
    from Inv_push [OF m2(1) this ib] obtain m3 where
      m3: "stackPush \<lparr>stack = S\<rparr> pb m2 = Inr ((), m3)"
        "Inv m3 P S prog toks (ys @ [pb]) (xs @ [b]) [pa, pb] [a, b]" "stdout m3 = stdout m2"
      by auto
    from m3(2) have ia3: "int_cell m3 pa a" by (auto simp: Inv_def)
    have "pa \<in> set (prog @ (ys @ [pb]) @ [pa, pb])" by simp
    from Inv_push [OF m3(2) this ia3] obtain m4 where
      m4: "stackPush \<lparr>stack = S\<rparr> pa m3 = Inr ((), m4)"
        "Inv m4 P S prog toks (ys @ [pb, pa]) (xs @ [b, a]) [pa, pb] [a, b]" "stdout m4 = stdout m3"
      by auto
    from m4(2) obtain m5 where m5: "decrementReferenceCount pa m4 = Inr ((), m5)"
      "Inv m5 P S prog toks (ys @ [pb, pa]) (xs @ [b, a]) [pb] [b]" "stdout m5 = stdout m4"
      by (rule Inv_decr)
    from m5(2) obtain m6 where m6: "decrementReferenceCount pb m5 = Inr ((), m6)"
      "Inv m6 P S prog toks (ys @ [pb, pa]) (xs @ [b, a]) [] []" "stdout m6 = stdout m5"
      by (rule Inv_decr)
    have "k pa pb m2 = Inr ((), m6)"
      unfolding k_def using m3(1) m4(1) m5(1) m6(1) by (simp add: bind_def)
    with m3 m4 m5 m6 m2 vs show ?thesis
      by (auto simp: corresponds_def v_swap_def op eq)
  qed
qed

lemma corresponds_Drop:
  assumes inv: "Inv m P S prog toks stk vs [] []"
  shows "corresponds P S prog toks (operationDrop \<lparr>stack = S\<rparr> m) (v_drop (vs, stdout m))"
proof (cases vs rule: rev_cases)
  case Nil
  with inv have "stk = []" by (auto simp: Inv_def)
  with inv Nil have "stackPop \<lparr>stack = S\<rparr> m = Inl (StackUnderflow, m)"
    by (auto intro: Inv_pop_empty)
  with inv Nil show ?thesis
    by (auto simp: corresponds_def v_drop_def operationDrop_def bind_def)
next
  case (snoc xs a)
  with inv obtain ys p where stk: "stk = ys @ [p]"
    by (auto simp: Inv_def elim: list_all2_snoc1)
  from inv [unfolded snoc stk] obtain m1 where
    m1: "stackPop \<lparr>stack = S\<rparr> m = Inr (p, m1)"
      "Inv m1 P S prog toks ys xs [p] [a]" "stdout m1 = stdout m"
    by (rule Inv_pop)
  from m1(2) obtain m2 where m2: "decrementReferenceCount p m1 = Inr ((), m2)"
    "Inv m2 P S prog toks ys xs [] []" "stdout m2 = stdout m1"
    by (rule Inv_decr)
  have "operationDrop \<lparr>stack = S\<rparr> m = Inr ((), m2)"
    using m1(1) m2(1) by (simp add: operationDrop_def bind_def)
  with m1 m2 snoc show ?thesis
    by (auto simp: corresponds_def v_drop_def)
qed

lemma corresponds_Print:
  assumes inv: "Inv m P S prog toks stk vs [] []"
  shows "corresponds P S prog toks (operationPrint \<lparr>stack = S\<rparr> m) (v_print (vs, stdout m))"
proof (cases vs rule: rev_cases)
  case Nil
  with inv have "stk = []" by (auto simp: Inv_def)
  with inv Nil have "stackPop \<lparr>stack = S\<rparr> m = Inl (StackUnderflow, m)"
    by (auto intro: Inv_pop_empty)
  with inv Nil show ?thesis
    by (auto simp: corresponds_def v_print_def operationPrint_def bind_def)
next
  case (snoc xs a)
  with inv obtain ys p where stk: "stk = ys @ [p]"
    by (auto simp: Inv_def elim: list_all2_snoc1)
  from inv [unfolded snoc stk] obtain m1 where
    m1: "stackPop \<lparr>stack = S\<rparr> m = Inr (p, m1)"
      "Inv m1 P S prog toks ys xs [p] [a]" "stdout m1 = stdout m"
    by (rule Inv_pop)
  from m1(2) have "int_cell m1 p a" by (auto simp: Inv_def)
  then obtain ob where ob: "deref p m1 = Inr (ob, m1)" "type ob = TF_OBJ_INT" "number ob = a"
    by (auto elim!: Inv_deref)
  let ?m = "m1\<lparr>stdout := stdout m1 @ decimal (sint a) @ '' ''\<rparr>"
  have "Inv ?m P S prog toks ys xs [p] [a]" using m1(2) by simp
  then obtain m2 where m2: "decrementReferenceCount p ?m = Inr ((), m2)"
    "Inv m2 P S prog toks ys xs [] []" "stdout m2 = stdout ?m"
    by (rule Inv_decr)
  have "operationPrint \<lparr>stack = S\<rparr> m = Inr ((), m2)"
    using m1(1) m2(1) ob
    by (simp add: operationPrint_def bind_Inr_eq [of "stackPop \<lparr>stack = S\<rparr>" m, OF m1(1)]
        bind_Inr_eq [of "deref p" m1, OF ob(1)] printf_def bind_def return_def)
  with m1 m2 snoc show ?thesis
    by (auto simp: corresponds_def v_print_def)
qed

lemma corresponds_Dup:
  assumes inv: "Inv m P S prog toks stk vs [] []"
  shows "corresponds P S prog toks (operationDup \<lparr>stack = S\<rparr> m) (v_dup (vs, stdout m))"
proof -
  from inv obtain sl where sl: "cell m S = Some sl" "element sl = stk"
    by (auto simp: Inv_def)
  then have d: "deref S m = Inr (sl, m)" by (simp add: deref_cell)
  show ?thesis
  proof (cases vs rule: rev_cases)
    case Nil
    with inv have "stk = []" by (auto simp: Inv_def)
    with sl d have "operationDup \<lparr>stack = S\<rparr> m = Inr ((), m)"
      by (simp add: operationDup_def bind_def return_def)
    with inv Nil show ?thesis
      by (auto simp: corresponds_def v_dup_def)
  next
    case (snoc xs a)
    with inv obtain ys p where stk: "stk = ys @ [p]"
      by (auto simp: Inv_def elim: list_all2_snoc1)
    from inv [unfolded snoc stk] obtain m1 where
      m1: "stackPop \<lparr>stack = S\<rparr> m = Inr (p, m1)"
        "Inv m1 P S prog toks ys xs [p] [a]" "stdout m1 = stdout m"
      by (rule Inv_pop)
    from m1(2) have i1: "int_cell m1 p a" by (auto simp: Inv_def)
    have "p \<in> set (prog @ ys @ [p])" by simp
    from Inv_push [OF m1(2) this i1] obtain m2 where
      m2: "stackPush \<lparr>stack = S\<rparr> p m1 = Inr ((), m2)"
        "Inv m2 P S prog toks (ys @ [p]) (xs @ [a]) [p] [a]" "stdout m2 = stdout m1"
      by auto
    from m2(2) have i2: "int_cell m2 p a" by (auto simp: Inv_def)
    have "p \<in> set (prog @ (ys @ [p]) @ [p])" by simp
    from Inv_push [OF m2(2) this i2] obtain m3 where
      m3: "stackPush \<lparr>stack = S\<rparr> p m2 = Inr ((), m3)"
        "Inv m3 P S prog toks (ys @ [p, p]) (xs @ [a, a]) [p] [a]" "stdout m3 = stdout m2"
      by auto
    from m3(2) obtain m4 where m4: "decrementReferenceCount p m3 = Inr ((), m4)"
      "Inv m4 P S prog toks (ys @ [p, p]) (xs @ [a, a]) [] []" "stdout m4 = stdout m3"
      by (rule Inv_decr)
    have "operationDup \<lparr>stack = S\<rparr> m = Inr ((), m4)"
      using sl stk d m1(1) m2(1) m3(1) m4(1) by (simp add: operationDup_def bind_def)
    with m1 m2 m3 m4 snoc show ?thesis
      by (auto simp: corresponds_def v_dup_def)
  qed
qed

definition value_operations :: "(string \<times> (vstate \<Rightarrow> fatal \<times> vstate + vstate)) list" where
  "value_operations =
     [(''+'', v_binary (+)), (''-'', v_binary (-)), (''*'', v_binary (*)),
      (''/'', v_div), (''.'', v_print), (''dup'', v_dup),
      (''drop'', v_drop), (''swap'', v_swap)]"

fun v_lookup_loop ::
  "(string \<times> (vstate \<Rightarrow> fatal \<times> vstate + vstate)) list \<Rightarrow> string \<Rightarrow>
     (vstate \<Rightarrow> fatal \<times> vstate + vstate) option" where
  "v_lookup_loop [] name = None"
| "v_lookup_loop (entry # entries) name =
     (if streq name (fst entry) then Some (snd entry) else v_lookup_loop entries name)"

definition v_lookup :: "string \<Rightarrow> (vstate \<Rightarrow> fatal \<times> vstate + vstate) option" where
  "v_lookup name = v_lookup_loop value_operations name"

fun v_exec :: "token \<Rightarrow> vstate \<Rightarrow> fatal \<times> vstate + vstate" where
  "v_exec (TInt v) (vs, out) = Inr (vs @ [v], out)"
| "v_exec (TSym s) st =
     (case v_lookup s of Some f \<Rightarrow> f st | None \<Rightarrow> Inl (UnknownWord (cstr s), st))"

fun v_run :: "token list \<Rightarrow> vstate \<Rightarrow> fatal \<times> vstate + vstate" where
  "v_run [] st = Inr st"
| "v_run (t # ts) st = (case v_exec t st of Inl e \<Rightarrow> Inl e | Inr st' \<Rightarrow> v_run ts st')"

lemma lookup_corresponds:
  assumes "Inv m P S prog toks stk vs [] []"
  shows "case lookupOperation s of
           None \<Rightarrow> v_lookup s = None
         | Some op \<Rightarrow> (\<exists>f. v_lookup s = Some f \<and>
             corresponds P S prog toks (op \<lparr>stack = S\<rparr> m) (f (vs, stdout m)))"
  using assms
  by (simp add: lookupOperation_def operations_def v_lookup_def value_operations_def
      corresponds_Add corresponds_Sub corresponds_Mul corresponds_Div corresponds_Print
      corresponds_Dup corresponds_Drop corresponds_Swap)

lemma corresponds_body:
  assumes inv: "Inv m P S prog toks stk vs [] []" and i: "i < length prog"
  shows "corresponds P S prog toks (execute_body (prog ! i) \<lparr>stack = S\<rparr> m)
           (v_exec (toks ! i) (vs, stdout m))"
proof -
  from inv have t: "list_all2 (tok_cell m) prog toks" by (simp add: Inv_def)
  from list_all2_nthD [OF t i] have tc: "tok_cell m (prog ! i) (toks ! i)" .
  show ?thesis
  proof (cases "toks ! i")
    case (TInt v)
    with tc have ic: "int_cell m (prog ! i) v" by (simp add: tok_cell_def)
    then obtain ob where ob: "deref (prog ! i) m = Inr (ob, m)" "type ob = TF_OBJ_INT"
      by (auto elim!: Inv_deref)
    from i have "prog ! i \<in> set (prog @ stk @ [])" by simp
    from Inv_push [OF inv this ic] obtain m' where
      m': "stackPush \<lparr>stack = S\<rparr> (prog ! i) m = Inr ((), m')"
        "Inv m' P S prog toks (stk @ [prog ! i]) (vs @ [v]) [] []" "stdout m' = stdout m"
      by auto
    have "execute_body (prog ! i) \<lparr>stack = S\<rparr> m = Inr ((), m')"
      using ob m'(1) by (simp add: execute_body_def bind_def)
    with m' TInt show ?thesis by (auto simp: corresponds_def)
  next
    case (TSym s)
    with tc obtain ob where ob: "cell m (prog ! i) = Some ob" "type ob = TF_OBJ_SYMBOL" "str ob = s"
      by (auto simp: tok_cell_def)
    then have d: "deref (prog ! i) m = Inr (ob, m)" by (simp add: deref_cell)
    show ?thesis
    proof (cases "lookupOperation s")
      case None
      with lookup_corresponds [OF inv, of s] have "v_lookup s = None" by simp
      moreover have "execute_body (prog ! i) \<lparr>stack = S\<rparr> m = Inl (UnknownWord (cstr s), m)"
        using d ob None by (simp add: execute_body_def bind_def exit_failure_def)
      ultimately show ?thesis using TSym inv by (auto simp: corresponds_def)
    next
      case (Some op)
      with lookup_corresponds [OF inv, of s] obtain f where
        f: "v_lookup s = Some f" "corresponds P S prog toks (op \<lparr>stack = S\<rparr> m) (f (vs, stdout m))"
        by auto
      have "execute_body (prog ! i) \<lparr>stack = S\<rparr> m = op \<lparr>stack = S\<rparr> m"
        using d ob Some by (simp add: execute_body_def bind_def)
      with f TSym show ?thesis by simp
    qed
  qed
qed

lemma execute_loop_corresponds:
  assumes "Inv m P S prog toks stk vs [] []" and "i \<le> length prog"
  shows "\<exists>r. execute_loop i P \<lparr>stack = S\<rparr> m = Some r \<and>
           corresponds P S prog toks r (v_run (drop i toks) (vs, stdout m))"
  using assms
proof (induction "length prog - i" arbitrary: i m stk vs)
  case 0
  then have i: "i = length prog" by simp
  from "0.prems"(1) obtain pl where pl: "cell m P = Some pl" "element pl = prog"
    and len: "length toks = length prog"
    by (auto simp: Inv_def dest: list_all2_lengthD)
  then have "execute_loop i P \<lparr>stack = S\<rparr> m = Some (Inr ((), m))"
    using i by (subst execute_loop.simps) (simp add: deref_cell)
  with "0.prems"(1) i len show ?case by (auto simp: corresponds_def)
next
  case (Suc n)
  then have i: "i < length prog" by simp
  from Suc.prems(1) obtain pl where pl: "cell m P = Some pl" "element pl = prog"
    and len: "length toks = length prog"
    by (auto simp: Inv_def dest: list_all2_lengthD)
  have unfold: "execute_loop i P \<lparr>stack = S\<rparr> m =
      (case execute_body (prog ! i) \<lparr>stack = S\<rparr> m of
         Inl e \<Rightarrow> Some (Inl e)
       | Inr (_, m') \<Rightarrow> execute_loop (i + 1) P \<lparr>stack = S\<rparr> m')"
    using pl i by (subst execute_loop.simps) (simp add: deref_cell)
  have dr: "drop i toks = toks ! i # drop (Suc i) toks"
    using i len by (simp add: Cons_nth_drop_Suc)
  note cb = corresponds_body [OF Suc.prems(1) i]
  show ?case
  proof (cases "v_exec (toks ! i) (vs, stdout m)")
    case (Inl e)
    with cb show ?thesis
      unfolding unfold dr by (cases e) (auto simp: corresponds_def split: prod.splits, blast)
  next
    case (Inr st)
    obtain vs' out' where st: "st = (vs', out')" by (cases st)
    with cb Inr obtain m' stk' where m': "execute_body (prog ! i) \<lparr>stack = S\<rparr> m = Inr ((), m')"
      "Inv m' P S prog toks stk' vs' [] []" "stdout m' = out'"
      by (auto simp: corresponds_def)
    from Suc.hyps(2) i have "n = length prog - Suc i" by simp
    from Suc.hyps(1) [OF this m'(2)] i obtain r where
      "execute_loop (Suc i) P \<lparr>stack = S\<rparr> m' = Some r"
      "corresponds P S prog toks r (v_run (drop (Suc i) toks) (vs', stdout m'))"
      by auto
    with m' Inr st show ?thesis
      unfolding unfold dr by simp
  qed
qed

section \<open>The tokens of a text\<close>

definition number_start :: "tfparser \<Rightarrow> bool" where
  "number_start parser =
     (isdigit (parserPeek parser) \<or>
      (parserPeek parser = CHR ''-'' \<and> isdigit (program_at parser 1)))"

definition number_chars :: "string \<Rightarrow> string" where
  "number_chars s =
     (if s \<noteq> [] \<and> hd s = CHR ''-'' then CHR ''-'' # takeWhile isdigit (tl s)
      else takeWhile isdigit s)"

lemma isdigit_not_space: "isdigit c \<Longrightarrow> \<not> isspace c"
  by (auto simp: isdigit_def isspace_def)

lemma isdigit_not_NUL: "isdigit c \<Longrightarrow> c \<noteq> CHR 0x00"
  by (auto simp: isdigit_def)

lemma isdigit_not_sign: "isdigit c \<Longrightarrow> c \<noteq> CHR ''-'' \<and> c \<noteq> CHR ''+''"
  by (auto simp: isdigit_def)

lemma isdigit_not_newline: "isdigit c \<Longrightarrow> c \<noteq> CHR 0x0A"
  by (auto simp: isdigit_def)

lemma not_isspace_NUL [simp]: "\<not> isspace (CHR 0x00)"
  by (simp add: isspace_def)

lemma not_isdigit_NUL [simp]: "\<not> isdigit (CHR 0x00)"
  by (simp add: isdigit_def)

lemma not_isspace_minus [simp]: "\<not> isspace CHR ''-''"
  by (simp add: isspace_def)

lemma number_start_cases:
  assumes "number_start parser"
  obtains (digit) c rest where "program parser = c # rest" "isdigit c"
  | (minus) c rest where "program parser = CHR ''-'' # c # rest" "isdigit c"
proof (cases "program parser")
  case Nil
  with assms show ?thesis by (simp add: number_start_def parserPeek_def program_at_def)
next
  case (Cons c rest)
  show ?thesis
  proof (cases "isdigit c")
    case True
    with Cons show ?thesis by (rule digit)
  next
    case False
    with assms Cons have c: "c = CHR ''-''" and r: "isdigit (program_at parser 1)"
      by (auto simp: number_start_def parserPeek_def)
    from r Cons obtain d rest' where "rest = d # rest'" "isdigit d"
      by (cases rest) (auto simp: program_at_def)
    with Cons c show ?thesis by (auto intro: minus)
  qed
qed

lemma strtol_digit:
  assumes "isdigit c"
  shows "strtol lb (c # rest) =
     (max (LONG_MIN lb) (min (LONG_MAX lb) (digits_value (c # takeWhile isdigit rest))),
      Suc (length (takeWhile isdigit rest)))"
  using assms isdigit_not_space [OF assms] isdigit_not_sign [OF assms]
  by (simp add: strtol_def Let_def)

lemma strtol_minus:
  assumes "isdigit c"
  shows "strtol lb (CHR ''-'' # c # rest) =
     (max (LONG_MIN lb) (min (LONG_MAX lb) (- digits_value (c # takeWhile isdigit rest))),
      Suc (Suc (length (takeWhile isdigit rest))))"
  using assms by (simp add: strtol_def Let_def)

lemma number_chars_digit: "isdigit c \<Longrightarrow> number_chars (c # rest) = c # takeWhile isdigit rest"
  by (auto simp: number_chars_def dest: isdigit_not_sign)

lemma number_chars_minus:
  "isdigit c \<Longrightarrow> number_chars (CHR ''-'' # c # rest) = CHR ''-'' # c # takeWhile isdigit rest"
  by (simp add: number_chars_def)

lemma strtol_number_start:
  assumes "number_start parser"
  shows "snd (strtol lb (program parser)) = length (number_chars (program parser))"
    and "number_chars (program parser) \<noteq> []"
    and "program parser = number_chars (program parser) @
           drop (length (number_chars (program parser))) (program parser)"
    and "\<forall>c\<in>set (number_chars (program parser)). c \<noteq> CHR 0x00 \<and> c \<noteq> CHR 0x0A"
proof -
  show "snd (strtol lb (program parser)) = length (number_chars (program parser))"
    using assms
    by (cases rule: number_start_cases)
      (simp_all add: strtol_digit strtol_minus number_chars_digit number_chars_minus)
  show "number_chars (program parser) \<noteq> []"
    using assms
    by (cases rule: number_start_cases) (simp_all add: number_chars_digit number_chars_minus)
  show "program parser = number_chars (program parser) @
           drop (length (number_chars (program parser))) (program parser)"
    using assms
    by (cases rule: number_start_cases)
      (simp_all add: number_chars_digit number_chars_minus dropWhile_eq_drop [symmetric])
  show "\<forall>c\<in>set (number_chars (program parser)). c \<noteq> CHR 0x00 \<and> c \<noteq> CHR 0x0A"
    using assms
    by (cases rule: number_start_cases)
      (auto simp: number_chars_digit number_chars_minus
        dest: set_takeWhileD isdigit_not_NUL isdigit_not_newline)
qed

text \<open>The line and the column after the characters \<open>cs\<close>, from line \<open>l\<close> and column \<open>c\<close>.\<close>

fun advance_pos :: "int \<times> int \<Rightarrow> string \<Rightarrow> int \<times> int" where
  "advance_pos (l, c) [] = (l, c)"
| "advance_pos (l, c) (x # xs) =
     advance_pos (if x = CHR 0x0A then (l + 1, 1) else (l, c + 1)) xs"

definition consume :: "string \<Rightarrow> tfparser \<Rightarrow> tfparser" where
  "consume cs parser =
     \<lparr>program = drop (length cs) (program parser),
      line = fst (advance_pos (line parser, column parser) cs),
      column = snd (advance_pos (line parser, column parser) cs)\<rparr>"

definition symbol_chars :: "string \<Rightarrow> string" where
  "symbol_chars s = takeWhile (\<lambda>c. \<not> isspace c \<and> c \<noteq> CHR 0x00) s"

lemma consume_Nil [simp]: "consume [] parser = parser"
  by (simp add: consume_def)

lemma consume_Cons:
  assumes "program parser = x # rest" and "x \<noteq> CHR 0x00"
  shows "consume (x # xs) parser = consume xs (parserAdvance parser)"
  using assms by (simp add: consume_def parserAdvance_def parserPeek_def)

lemma program_consume [simp]: "program (consume cs parser) = drop (length cs) (program parser)"
  by (simp add: consume_def)

lemma parseNumber_loop_consume:
  assumes "program parser = cs @ rest" and "\<forall>c\<in>set cs. c \<noteq> CHR 0x00"
  shows "parseNumber_loop rest parser = Some (consume cs parser)"
  using assms
proof (induction cs arbitrary: parser)
  case Nil
  then show ?case by (subst parseNumber_loop.simps) simp
next
  case (Cons x xs)
  then have adv: "program (parserAdvance parser) = xs @ rest"
    by (simp add: parserAdvance_def parserPeek_def)
  from Cons.prems have "consume (x # xs) parser = consume xs (parserAdvance parser)"
    by (intro consume_Cons) auto
  moreover have "parseNumber_loop rest parser = parseNumber_loop rest (parserAdvance parser)"
    using Cons.prems by (subst parseNumber_loop.simps) simp
  ultimately show ?case using Cons.IH [OF adv] Cons.prems by simp
qed

lemma parseSymbol_loop_consume:
  "parseSymbol_loop parser = consume (symbol_chars (program parser)) parser"
proof (induction "program parser" arbitrary: parser)
  case Nil
  then show ?case
    by (subst parseSymbol_loop.simps) (simp add: parserPeek_def symbol_chars_def [of "[]"])
next
  case (Cons x xs)
  from Cons(2) [symmetric] have p: "program parser = x # xs" .
  show ?case
  proof (cases "\<not> isspace x \<and> x \<noteq> CHR 0x00")
    case True
    with p have adv: "xs = program (parserAdvance parser)"
      by (simp add: parserAdvance_def parserPeek_def)
    have "parseSymbol_loop parser = parseSymbol_loop (parserAdvance parser)"
      using p True by (subst parseSymbol_loop.simps) (simp add: parserPeek_def)
    also have "\<dots> = consume (symbol_chars xs) (parserAdvance parser)"
      using Cons(1) [OF adv] adv by simp
    also have "\<dots> = consume (symbol_chars (program parser)) parser"
      using p True by (simp add: symbol_chars_def consume_Cons [OF p])
    finally show ?thesis .
  next
    case False
    then show ?thesis
      using p by (subst parseSymbol_loop.simps) (auto simp: parserPeek_def symbol_chars_def)
  qed
qed

lemma parserSkipWhiteSpace_consume:
  "parserSkipWhiteSpace parser = consume (takeWhile isspace (program parser)) parser"
proof (induction "program parser" arbitrary: parser)
  case Nil
  then show ?case
    by (subst parserSkipWhiteSpace.simps) (simp add: parserPeek_def)
next
  case (Cons x xs)
  from Cons(2) [symmetric] have p: "program parser = x # xs" .
  show ?case
  proof (cases "isspace x")
    case True
    then have x: "x \<noteq> CHR 0x00" by auto
    with p have adv: "xs = program (parserAdvance parser)"
      by (simp add: parserAdvance_def parserPeek_def)
    have "parserSkipWhiteSpace parser = parserSkipWhiteSpace (parserAdvance parser)"
      using p True x by (subst parserSkipWhiteSpace.simps) (simp add: parserPeek_def)
    also have "\<dots> = consume (takeWhile isspace xs) (parserAdvance parser)"
      using Cons(1) [OF adv] adv by simp
    also have "\<dots> = consume (takeWhile isspace (program parser)) parser"
      using p True x by (simp add: consume_Cons [OF p])
    finally show ?thesis .
  next
    case False
    then show ?thesis
      using p by (subst parserSkipWhiteSpace.simps) (auto simp: parserPeek_def)
  qed
qed

lemma symbol_chars_nonempty:
  "parserPeek parser \<noteq> CHR 0x00 \<Longrightarrow> \<not> isspace (parserPeek parser) \<Longrightarrow>
     symbol_chars (program parser) \<noteq> []"
  by (cases "program parser") (auto simp: parserPeek_def symbol_chars_def)

lemma length_symbol_chars: "length (symbol_chars s) \<le> length s"
  by (simp add: symbol_chars_def length_takeWhile_le)

lemma peek_after_skip: "\<not> isspace (parserPeek (consume (takeWhile isspace (program parser)) parser))"
proof (cases "dropWhile isspace (program parser)")
  case Nil
  show ?thesis
    unfolding parserPeek_def program_consume dropWhile_eq_drop [symmetric] Nil by simp
next
  case (Cons x xs)
  with hd_dropWhile [of isspace "program parser"] have "\<not> isspace x" by simp
  then show ?thesis
    unfolding parserPeek_def program_consume dropWhile_eq_drop [symmetric] Cons by simp
qed

function tokenize_loop :: "nat \<Rightarrow> tfparser \<Rightarrow> syntax_error + token list" where
  "tokenize_loop lb parser0 =
     (if parserPeek parser0 = CHR 0x00 then Inr []
      else let parser = parserSkipWhiteSpace parser0
           in if parserPeek parser = CHR 0x00 then Inr []
              else if number_start parser
                then (case tokenize_loop lb (consume (number_chars (program parser)) parser) of
                        Inl e \<Rightarrow> Inl e
                      | Inr ts \<Rightarrow>
                          Inr (TInt (word_of_int (fst (strtol lb (program parser)))) # ts))
              else if lookupOperation (symbol_chars (program parser)) = None
                then Inl (SyntaxError (line parser) (column parser))
              else (case tokenize_loop lb (consume (symbol_chars (program parser)) parser) of
                      Inl e \<Rightarrow> Inl e
                    | Inr ts \<Rightarrow> Inr (TSym (symbol_chars (program parser)) # ts)))"
  by pat_completeness auto
termination
proof (relation "measure (\<lambda>(lb, parser). length (program parser))", goal_cases)
  case 1
  show ?case by simp
next
  case (2 lb parser0 parser)
  then have "number_chars (program parser) \<noteq> []"
    by (auto dest: strtol_number_start(2))
  moreover have "program parser =
      number_chars (program parser) @ drop (length (number_chars (program parser))) (program parser)"
    using 2 by (auto dest: strtol_number_start(3))
  then have "length (number_chars (program parser)) \<le> length (program parser)"
    by (metis length_append le_add1)
  moreover have "length (program parser) \<le> length (program parser0)"
    using 2 by (simp add: parserSkipWhiteSpace_consume)
  ultimately show ?case
    by (cases "number_chars (program parser)") auto
next
  case (3 lb parser0 parser)
  then have "\<not> isspace (parserPeek parser)"
    by (simp add: parserSkipWhiteSpace_consume peek_after_skip)
  with 3 have "symbol_chars (program parser) \<noteq> []"
    by (intro symbol_chars_nonempty) auto
  moreover note length_symbol_chars [of "program parser"]
  moreover have "length (program parser) \<le> length (program parser0)"
    using 3 by (simp add: parserSkipWhiteSpace_consume)
  ultimately show ?case
    by (cases "symbol_chars (program parser)") auto
qed

declare tokenize_loop.simps [simp del]

definition tokenize :: "nat \<Rightarrow> string \<Rightarrow> syntax_error + token list" where
  "tokenize lb program_txt = tokenize_loop lb \<lparr>program = program_txt, line = 1, column = 1\<rparr>"

section \<open>The heap that the compiler builds\<close>

fun token_cell :: "token \<Rightarrow> tfobj" where
  "token_cell (TInt v) =
     \<lparr>type = TF_OBJ_INT, refcount = 1, number = v, str = [], element = [], capacity = 0\<rparr>"
| "token_cell (TSym s) =
     \<lparr>type = TF_OBJ_SYMBOL, refcount = 1, number = 0, str = s, element = [], capacity = 0\<rparr>"

definition list_cell :: "addr list \<Rightarrow> nat \<Rightarrow> tfobj" where
  "list_cell es cap =
     \<lparr>type = TF_OBJ_LIST, refcount = 1, number = 0, str = [], element = es, capacity = cap\<rparr>"

definition addresses :: "addr \<Rightarrow> nat \<Rightarrow> addr list" where
  "addresses a n = map (\<lambda>k. a + k) [0 ..< n]"

definition program_heap :: "tfobj option list \<Rightarrow> token list \<Rightarrow> nat \<Rightarrow> tfobj option list" where
  "program_heap h0 ts cap =
     h0 @ Some (list_cell (addresses (Suc (length h0)) (length ts)) cap)
        # map (\<lambda>t. Some (token_cell t)) ts"

lemma length_addresses [simp]: "length (addresses a n) = n"
  by (simp add: addresses_def)

lemma nth_addresses [simp]: "k < n \<Longrightarrow> addresses a n ! k = a + k"
  by (simp add: addresses_def)

lemma addresses_Suc: "addresses a (Suc n) = addresses a n @ [a + n]"
  by (simp add: addresses_def)

lemma addresses_0 [simp]: "addresses a 0 = []"
  by (simp add: addresses_def)

lemma set_addresses: "set (addresses a n) = {a ..< a + n}"
  by (auto simp: addresses_def image_iff)

lemma token_cell_simps [simp]:
  "type (token_cell t) \<noteq> TF_OBJ_LIST" "refcount (token_cell t) = 1"
  by (cases t; simp)+

lemma length_program_heap [simp]:
  "length (program_heap h0 ts cap) = Suc (length h0 + length ts)"
  by (simp add: program_heap_def)

lemma parseNumber_eq:
  assumes "number_start parser"
  shows "parseNumber lb parser m =
     Some (Inr ((consume (number_chars (program parser)) parser, Some (length (heap m))),
       m\<lparr>heap := heap m @
         [Some (token_cell (TInt (word_of_int (fst (strtol lb (program parser))))))]\<rparr>))"
proof -
  let ?cs = "number_chars (program parser)"
  obtain v n where s: "strtol lb (program parser) = (v, n)" by (cases "strtol lb (program parser)")
  with strtol_number_start(1) [OF assms, of lb] have n: "n = length ?cs" by simp
  have "parseNumber_loop (drop n (program parser)) parser = Some (consume ?cs parser)"
    unfolding n
    by (rule parseNumber_loop_consume)
      (use strtol_number_start(3,4) [OF assms] in auto)
  then show ?thesis
    using s by (simp add: parseNumber_def createIntegerObject_eq bind_def return_def)
qed

lemma take_symbol_chars: "take (length (symbol_chars s)) s = symbol_chars s"
  by (simp add: symbol_chars_def takeWhile_eq_take [symmetric] del: takeWhile_eq_take)

lemma parseSymbol_eq:
  "parseSymbol parser m =
     (if lookupOperation (symbol_chars (program parser)) = None
      then Inr ((consume (symbol_chars (program parser)) parser, None),
             m\<lparr>heap := heap m @ [None]\<rparr>)
      else Inr ((consume (symbol_chars (program parser)) parser, Some (length (heap m))),
             m\<lparr>heap := heap m @ [Some (token_cell (TSym (symbol_chars (program parser))))]\<rparr>))"
proof -
  let ?s = "program parser"
  have len: "length ?s - (length ?s - length (symbol_chars ?s)) = length (symbol_chars ?s)"
    using length_symbol_chars [of ?s] by simp
  let ?c = "token_cell (TSym (symbol_chars ?s))"
  let ?m = "m\<lparr>heap := heap m @ [Some ?c]\<rparr>"
  have cr: "createSymbolObject ?s (length (symbol_chars ?s)) m = Inr (length (heap m), ?m)"
    by (simp add: createSymbolObject_eq take_symbol_chars)
  have c: "cell ?m (length (heap m)) = Some ?c" by simp
  have str: "str ?c = symbol_chars ?s" by simp
  have dec: "decrementReferenceCount (length (heap m)) ?m = Inr ((), m\<lparr>heap := heap m @ [None]\<rparr>)"
    by (subst decrementReferenceCount_nonlist [OF c]) simp_all
  show ?thesis
    by (simp add: parseSymbol_def Let_def parseSymbol_loop_consume len
        bind_Inr_eq [of "createSymbolObject ?s (length (symbol_chars ?s))" m, OF cr]
        bind_Inr_eq [of "decrementReferenceCount (length (heap m))" ?m, OF dec]
        bind_def [of "deref (length (heap m))"] deref_cell return_def str
        del: token_cell.simps)
qed

lemma program_heap_snoc:
  "program_heap h0 (ts @ [t]) cap =
     (program_heap h0 ts cap)
       [length h0 := Some (list_cell (addresses (Suc (length h0)) (Suc (length ts))) cap)]
     @ [Some (token_cell t)]"
  by (simp add: program_heap_def list_update_append)

lemma program_heap_update:
  "(program_heap h0 ts cap)[length h0 := c] = h0 @ c # map (\<lambda>t. Some (token_cell t)) ts"
  by (simp add: program_heap_def list_update_append)

lemma cell_program_heap_list:
  "heap m = program_heap h0 ts cap @ tail \<Longrightarrow>
     cell m (length h0) = Some (list_cell (addresses (Suc (length h0)) (length ts)) cap)"
  by (simp add: cell_def program_heap_def nth_append)

lemma token_cell_refcount [simp]: "token_cell t\<lparr>refcount := 1\<rparr> = token_cell t"
  by (cases t) simp_all

lemma append_token:
  assumes h: "heap m = program_heap h0 ts cap" and cap: "length ts \<le> cap" "0 < cap"
  shows "bind (listAppendObject (length h0) (length (heap m)))
           (\<lambda>_. decrementReferenceCount (length (heap m)))
           (m\<lparr>heap := heap m @ [Some (token_cell t)]\<rparr>) =
         Inr ((), m\<lparr>heap := program_heap h0 (ts @ [t]) (if cap \<le> length ts then cap * 2 else cap)\<rparr>)"
proof -
  define P where "P = length h0"
  define n where "n = length (heap m)"
  define es where "es = addresses (Suc P) (length ts)"
  define c where "c = token_cell t"
  define c2 where "c2 = c\<lparr>refcount := refcount c + 1\<rparr>"
  define m1 where "m1 = m\<lparr>heap := heap m @ [Some c]\<rparr>"
  define cap' where "cap' = (if cap \<le> length ts then cap * 2 else cap)"
  define L' where "L' = (list_cell es cap)\<lparr>capacity := cap', element := es @ [n]\<rparr>"
  define m2 where "m2 = m1\<lparr>heap := (heap m1)[P := Some L', n := Some c2]\<rparr>"
  have n: "n = Suc P + length ts" using h by (simp add: n_def P_def)
  have cP: "cell m1 P = Some (list_cell es cap)"
    using cell_program_heap_list [of m1 h0 ts cap "[Some c]"] h
    by (simp add: m1_def P_def es_def)
  have cn: "cell m1 n = Some c" by (simp add: m1_def n_def)
  have ne: "n \<noteq> P" using n by simp
  have el: "element (list_cell es k) = es" "capacity (list_cell es k) = k" for k
    by (simp_all add: list_cell_def)
  have les: "length es = length ts" by (simp add: es_def)
  have app: "listAppendObject P n m1 = Inr ((), m2)"
    using listAppendObject_eq [OF cP cn ne] cap
    by (simp add: el les m2_def L'_def c2_def cap'_def)
  have n1: "n < length (heap m1)" by (simp add: m1_def n_def)
  have cn2: "cell m2 n = Some c2"
    using n1 by (simp add: m2_def cell_heap)
  have tc: "type c2 \<noteq> TF_OBJ_LIST" "refcount c2 = 2" "c2\<lparr>refcount := 1\<rparr> = c"
    by (simp_all add: c2_def c_def)
  have dec: "decrementReferenceCount n m2 = Inr ((), m2\<lparr>heap := (heap m2)[n := Some c]\<rparr>)"
    by (subst decrementReferenceCount_nonlist [OF cn2 tc(1)]) (simp add: tc)
  have L': "L' = list_cell (addresses (Suc P) (Suc (length ts))) cap'"
    by (simp add: L'_def list_cell_def es_def addresses_Suc n)
  have "(heap m2)[n := Some c] = program_heap h0 (ts @ [t]) cap'"
    unfolding program_heap_snoc L' [symmetric, unfolded P_def] m2_def m1_def
    using ne h
    by (simp add: list_update_append list_update_swap [of n P] n_def P_def c_def
        program_heap_update)
  with app dec show ?thesis
    by (simp add: bind_def P_def n_def m1_def c_def cap'_def m2_def)
qed

lemma freeObject_loop_program:
  assumes "heap m = h0 @ Some L # replicate i None @ map (\<lambda>t. Some (token_cell t)) (drop i ts) @ tail"
    and "element L = addresses (Suc (length h0)) (length ts)" and "i \<le> length ts"
  shows "freeObject_loop i (length h0) m =
     Inr ((), m\<lparr>heap := h0 @ Some L # replicate (length ts) None @ tail\<rparr>)"
  using assms
proof (induction "length ts - i" arbitrary: i m)
  case 0
  then have i: "i = length ts" by simp
  have "cell m (length h0) = Some L" using "0.prems"(1) by (simp add: cell_def nth_append)
  with "0.prems" i show ?case
    by (subst freeObject_loop.simps) (simp add: bind_def deref_cell return_def)
next
  case (Suc k)
  then have i: "i < length ts" by simp
  define P where "P = length h0"
  define xs where "xs = h0 @ Some L # replicate i None"
  define rest where "rest = map (\<lambda>t. Some (token_cell t)) (drop (Suc i) ts) @ tail"
  define a where "a = Suc (P + i)"
  have dr: "drop i ts = ts ! i # drop (Suc i) ts" using i by (simp add: Cons_nth_drop_Suc)
  have h: "heap m = xs @ Some (token_cell (ts ! i)) # rest"
    using Suc.prems(1) dr by (simp add: xs_def rest_def)
  have len: "length xs = a" by (simp add: xs_def a_def P_def)
  have cP: "cell m P = Some L" using Suc.prems(1) by (simp add: cell_def nth_append P_def)
  have ei: "element L ! i = a" using Suc.prems(2) i by (simp add: a_def P_def)
  have ce: "cell m a = Some (token_cell (ts ! i))"
    unfolding cell_def h len [symmetric] by simp
  define m' where "m' = m\<lparr>heap := (heap m)[a := None]\<rparr>"
  have dec: "decrementReferenceCount a m = Inr ((), m')"
    unfolding m'_def by (subst decrementReferenceCount_nonlist [OF ce]) simp_all
  have "(heap m)[a := None] = xs @ None # rest"
    unfolding h len [symmetric] by simp
  then have h': "heap m' =
      h0 @ Some L # replicate (Suc i) None @ map (\<lambda>t. Some (token_cell t)) (drop (Suc i) ts) @ tail"
    by (simp add: m'_def xs_def rest_def replicate_app_Cons_same)
  from Suc.hyps(2) i have k: "k = length ts - Suc i" by simp
  have IH: "freeObject_loop (Suc i) (length h0) m' =
      Inr ((), m'\<lparr>heap := h0 @ Some L # replicate (length ts) None @ tail\<rparr>)"
    using Suc.hyps(1) [OF k h' Suc.prems(2)] i by simp
  have m'': "m'\<lparr>heap := h0 @ Some L # replicate (length ts) None @ tail\<rparr>
      = m\<lparr>heap := h0 @ Some L # replicate (length ts) None @ tail\<rparr>"
    by (simp add: m'_def)
  show ?case
    using cP i ei dec IH m''
    by (subst freeObject_loop.simps) (simp add: bind_def deref_cell Suc.prems(2) P_def)
qed

lemma release_program:
  assumes h: "heap m = program_heap h0 ts cap @ tail"
  shows "decrementReferenceCount (length h0) m =
     Inr ((), m\<lparr>heap := h0 @ replicate (Suc (length ts)) None @ tail\<rparr>)"
proof -
  define P where "P = length h0"
  define L where "L = list_cell (addresses (Suc P) (length ts)) cap"
  define L0 where "L0 = L\<lparr>refcount := 0\<rparr>"
  define m1 where "m1 = m\<lparr>heap := (heap m)[P := Some L0]\<rparr>"
  define m2 where "m2 = m\<lparr>heap := h0 @ Some L0 # replicate (length ts) None @ tail\<rparr>"
  have cP: "cell m P = Some L"
    using h unfolding P_def L_def by (rule cell_program_heap_list)
  have L: "type L = TF_OBJ_LIST" "refcount L - 1 = 0" "L\<lparr>refcount := refcount L - 1\<rparr> = L0"
    "type L0 = TF_OBJ_LIST" "element L0 = addresses (Suc (length h0)) (length ts)"
    by (simp_all add: L_def L0_def list_cell_def P_def)
  have h1: "heap m1 = h0 @ Some L0 # replicate 0 None
      @ map (\<lambda>t. Some (token_cell t)) (drop 0 ts) @ tail"
    using h by (simp add: m1_def P_def program_heap_def list_update_append)
  have "freeObject_loop 0 (length h0) m1 =
      Inr ((), m1\<lparr>heap := h0 @ Some L0 # replicate (length ts) None @ tail\<rparr>)"
    by (rule freeObject_loop_program [OF h1 L(5)]) simp
  then have loop: "freeObject_loop 0 P m1 = Inr ((), m2)"
    by (simp add: m1_def m2_def P_def)
  have c1: "cell m1 P = Some L0"
    using cell_Some_less [OF cP] by (simp add: m1_def)
  have c2: "cell m2 P = Some L0"
    by (simp add: m2_def cell_def P_def nth_append)
  have fr: "free P m2 = Inr ((), m\<lparr>heap := h0 @ replicate (Suc (length ts)) None @ tail\<rparr>)"
    using c2 by (simp add: free_cell m2_def P_def list_update_append)
  have "freeObject P m1 = Inr ((), m\<lparr>heap := h0 @ replicate (Suc (length ts)) None @ tail\<rparr>)"
    using c1 loop fr L(4)
    by (subst freeObject.simps) (simp add: bind_def deref_cell)
  then show ?thesis
    using cP L(1,2,3) unfolding P_def [symmetric]
    by (subst decrementReferenceCount.simps)
      (simp add: bind_def deref_cell store_cell m1_def)
qed

lemma machine_heap_id [simp]: "m\<lparr>heap := heap m\<rparr> = m"
  by simp

lemma compile_loop_unfold:
  "compile_loop lb parser0 program_list m =
     (if parserPeek parser0 = CHR 0x00 then Some (Inr (Inr program_list, m))
      else if parserPeek (parserSkipWhiteSpace parser0) = CHR 0x00
        then Some (Inr (Inr program_list, m))
      else
        (case (if number_start (parserSkipWhiteSpace parser0)
               then parseNumber lb (parserSkipWhiteSpace parser0) m
               else Some (parseSymbol (parserSkipWhiteSpace parser0) m)) of
           None \<Rightarrow> None
         | Some (Inl e) \<Rightarrow> Some (Inl e)
         | Some (Inr ((parser', None), m')) \<Rightarrow>
             Some (bind (decrementReferenceCount program_list)
                     (\<lambda>_. return (Inl (SyntaxError (line (parserSkipWhiteSpace parser0))
                                          (column (parserSkipWhiteSpace parser0))))) m')
         | Some (Inr ((parser', Some new_object), m')) \<Rightarrow>
             (case bind (listAppendObject program_list new_object)
                     (\<lambda>_. decrementReferenceCount new_object) m' of
                Inl e \<Rightarrow> Some (Inl e)
              | Inr (_, m'') \<Rightarrow> compile_loop lb parser' program_list m'')))"
  by (subst compile_loop.simps) (simp add: Let_def number_start_def return_def)

lemma compile_loop_tokenize:
  assumes "heap m = program_heap h0 done cap" and "length done \<le> cap" and "0 < cap"
  shows "\<exists>r. compile_loop lb parser (length h0) m = Some (Inr r) \<and>
     (case tokenize_loop lb parser of
        Inl err \<Rightarrow> \<exists>k. r = (Inl err, m\<lparr>heap := h0 @ replicate k None\<rparr>)
      | Inr ts \<Rightarrow>
          \<exists>cap'. r = (Inr (length h0), m\<lparr>heap := program_heap h0 (done @ ts) cap'\<rparr>) \<and>
            length (done @ ts) \<le> cap' \<and> 0 < cap')"
  using assms
proof (induction lb parser arbitrary: m "done" cap rule: tokenize_loop.induct)
  case (1 lb parser0)
  define parser where "parser = parserSkipWhiteSpace parser0"
  define P where "P = length h0"
  note h = "1.prems"(1)
  show ?case
  proof (cases "parserPeek parser0 = CHR 0x00 \<or> parserPeek parser = CHR 0x00")
    case True
    then have "compile_loop lb parser0 (length h0) m = Some (Inr (Inr (length h0), m))"
      by (subst compile_loop_unfold) (auto simp: parser_def)
    moreover have "tokenize_loop lb parser0 = Inr []"
      using True by (subst tokenize_loop.simps) (auto simp: parser_def Let_def)
    moreover have "m\<lparr>heap := program_heap h0 (done @ []) cap\<rparr> = m"
      by (simp add: h [symmetric])
    ultimately show ?thesis
      using "1.prems"(2,3)
      by (intro exI [of _ "(Inr (length h0), m)"]) (auto intro!: exI [of _ cap])
  next
    case False
    then have p0: "parserPeek parser0 \<noteq> CHR 0x00" and p: "parserPeek parser \<noteq> CHR 0x00"
      by auto
    define cap' where "cap' = (if cap \<le> length done then cap * 2 else cap)"
    have cap': "length (done @ [t]) \<le> cap'" "0 < cap'" for t
      using "1.prems"(2,3) by (auto simp: cap'_def)
    show ?thesis
    proof (cases "number_start parser")
      case True
      define t where "t = TInt (word_of_int (fst (strtol lb (program parser))))"
      define parser' where "parser' = consume (number_chars (program parser)) parser"
      define m1 where "m1 = m\<lparr>heap := heap m @ [Some (token_cell t)]\<rparr>"
      define m2 where "m2 = m\<lparr>heap := program_heap h0 (done @ [t]) cap'\<rparr>"
      have pn: "parseNumber lb parser m = Some (Inr ((parser', Some (length (heap m))), m1))"
        unfolding parser'_def m1_def t_def by (rule parseNumber_eq [OF True])
      have ap: "bind (listAppendObject (length h0) (length (heap m)))
           (\<lambda>_. decrementReferenceCount (length (heap m))) m1 = Inr ((), m2)"
        unfolding m1_def m2_def cap'_def by (rule append_token [OF h "1.prems"(2,3)])
      have step: "compile_loop lb parser0 (length h0) m = compile_loop lb parser' (length h0) m2"
        using p0 p True pn ap by (subst compile_loop_unfold) (simp add: parser_def [symmetric])
      have tok: "tokenize_loop lb parser0 =
          (case tokenize_loop lb parser' of Inl e \<Rightarrow> Inl e | Inr ts \<Rightarrow> Inr (t # ts))"
        using p0 p True
        by (subst tokenize_loop.simps)
          (simp add: parser_def [symmetric] Let_def parser'_def t_def cong: sum.case_cong)
      have h2: "heap m2 = program_heap h0 (done @ [t]) cap'" by (simp add: m2_def)
      from "1.IH"(1) [OF p0 parser_def p True, folded parser'_def, OF h2 cap']
      obtain r where r: "compile_loop lb parser' (length h0) m2 = Some (Inr r)"
        "case tokenize_loop lb parser' of
           Inl err \<Rightarrow> \<exists>k. r = (Inl err, m2\<lparr>heap := h0 @ replicate k None\<rparr>)
         | Inr ts \<Rightarrow>
             \<exists>cap''. r = (Inr (length h0), m2\<lparr>heap := program_heap h0 ((done @ [t]) @ ts) cap''\<rparr>) \<and>
               length ((done @ [t]) @ ts) \<le> cap'' \<and> 0 < cap''"
        by blast
      show ?thesis
        using r unfolding step tok
        by (cases "tokenize_loop lb parser'") (auto simp: m2_def)
    next
      case False
      define name where "name = symbol_chars (program parser)"
      define parser' where "parser' = consume name parser"
      show ?thesis
      proof (cases "lookupOperation name = None")
        case True
        define m1 where "m1 = m\<lparr>heap := heap m @ [None]\<rparr>"
        have ps: "parseSymbol parser m = Inr ((parser', None), m1)"
          using True by (simp add: parseSymbol_eq name_def parser'_def m1_def)
        have h1: "heap m1 = program_heap h0 done cap @ [None]"
          using h by (simp add: m1_def)
        have rel: "decrementReferenceCount (length h0) m1 =
            Inr ((), m\<lparr>heap := h0 @ replicate (Suc (Suc (length done))) None\<rparr>)"
          using release_program [OF h1]
          by (simp add: m1_def replicate_append_same)
        have "compile_loop lb parser0 (length h0) m =
            Some (Inr (Inl (SyntaxError (line parser) (column parser)),
              m\<lparr>heap := h0 @ replicate (Suc (Suc (length done))) None\<rparr>))"
          using p0 p False ps rel
          by (subst compile_loop_unfold)
            (simp add: parser_def [symmetric] bind_def return_def)
        moreover have "tokenize_loop lb parser0 = Inl (SyntaxError (line parser) (column parser))"
          using p0 p False True
          by (subst tokenize_loop.simps) (simp add: parser_def [symmetric] Let_def name_def)
        ultimately show ?thesis
          by (auto intro!: exI [of _ "Suc (Suc (length done))"])
      next
        case ok: False
        define t where "t = TSym name"
        define m1 where "m1 = m\<lparr>heap := heap m @ [Some (token_cell t)]\<rparr>"
        define m2 where "m2 = m\<lparr>heap := program_heap h0 (done @ [t]) cap'\<rparr>"
        have ps: "parseSymbol parser m = Inr ((parser', Some (length (heap m))), m1)"
          using ok by (simp add: parseSymbol_eq name_def parser'_def m1_def t_def)
        have ap: "bind (listAppendObject (length h0) (length (heap m)))
             (\<lambda>_. decrementReferenceCount (length (heap m))) m1 = Inr ((), m2)"
          unfolding m1_def m2_def cap'_def by (rule append_token [OF h "1.prems"(2,3)])
        have step: "compile_loop lb parser0 (length h0) m = compile_loop lb parser' (length h0) m2"
          using p0 p False ps ap
          by (subst compile_loop_unfold) (simp add: parser_def [symmetric])
        have tok: "tokenize_loop lb parser0 =
            (case tokenize_loop lb parser' of Inl e \<Rightarrow> Inl e | Inr ts \<Rightarrow> Inr (t # ts))"
          using p0 p False ok
          by (subst tokenize_loop.simps)
            (auto simp: parser_def [symmetric] Let_def parser'_def t_def name_def
              cong: sum.case_cong)
        have h2: "heap m2 = program_heap h0 (done @ [t]) cap'" by (simp add: m2_def)
        have ok': "lookupOperation (symbol_chars (program parser)) \<noteq> None"
          using ok by (simp add: name_def)
        from "1.IH"(2) [OF p0 parser_def p False ok', folded name_def parser'_def, OF h2 cap']
        obtain r where r: "compile_loop lb parser' (length h0) m2 = Some (Inr r)"
          "case tokenize_loop lb parser' of
             Inl err \<Rightarrow> \<exists>k. r = (Inl err, m2\<lparr>heap := h0 @ replicate k None\<rparr>)
           | Inr ts \<Rightarrow>
               \<exists>cap''. r = (Inr (length h0), m2\<lparr>heap := program_heap h0 ((done @ [t]) @ ts) cap''\<rparr>) \<and>
                 length ((done @ [t]) @ ts) \<le> cap'' \<and> 0 < cap''"
          by blast
        show ?thesis
          using r unfolding step tok
          by (cases "tokenize_loop lb parser'") (auto simp: m2_def)
      qed
    qed
  qed
qed

theorem compile_tokenize:
  "\<exists>r. compile lb program_txt m = Some (Inr r) \<and>
     (case tokenize lb program_txt of
        Inl err \<Rightarrow> \<exists>k. r = (Inl err, m\<lparr>heap := heap m @ replicate k None\<rparr>)
      | Inr ts \<Rightarrow>
          \<exists>cap. r = (Inr (length (heap m)), m\<lparr>heap := program_heap (heap m) ts cap\<rparr>) \<and>
            length ts \<le> cap \<and> 0 < cap)"
proof -
  define m1 where "m1 = m\<lparr>heap := heap m @ [Some (list_cell [] INITIAL_STACK_CAPACITY)]\<rparr>"
  have cr: "createListObject m = Inr (length (heap m), m1)"
    by (simp add: createListObject_eq m1_def list_cell_def)
  have h1: "heap m1 = program_heap (heap m) [] INITIAL_STACK_CAPACITY"
    by (simp add: m1_def program_heap_def)
  have eq: "compile lb program_txt m =
      compile_loop lb \<lparr>program = program_txt, line = 1, column = 1\<rparr> (length (heap m)) m1"
    using cr by (simp add: compile_def)
  have m1: "m1\<lparr>heap := h\<rparr> = m\<lparr>heap := h\<rparr>" for h
    by (simp add: m1_def)
  have "0 < INITIAL_STACK_CAPACITY" by (simp add: INITIAL_STACK_CAPACITY_def)
  from compile_loop_tokenize [OF h1 _ this, of lb "\<lparr>program = program_txt, line = 1, column = 1\<rparr>"]
  show ?thesis
    unfolding eq tokenize_def m1 by (simp cong: sum.case_cong)
qed

section \<open>Running a compiled program\<close>

text \<open>The 32-bit values of the objects on the stack, bottom first, when they are all Integers.\<close>

definition stack_integers :: "tfcontext \<Rightarrow> machine \<Rightarrow> 32 word list option" where
  "stack_integers context m =
     (case cell m (stack context) of
        None \<Rightarrow> None
      | Some s \<Rightarrow>
          those (map (\<lambda>e. case cell m e of
                            None \<Rightarrow> None
                          | Some ob \<Rightarrow> if type ob = TF_OBJ_INT then Some (number ob) else None)
                   (element s)))"

lemma those_ints:
  "list_all2 (int_cell m) es vs \<Longrightarrow>
     those (map (\<lambda>e. case cell m e of
                       None \<Rightarrow> None
                     | Some ob \<Rightarrow> if type ob = TF_OBJ_INT then Some (number ob) else None) es)
       = Some vs"
  by (induction rule: list_all2_induct) (auto simp: int_cell_def)

lemma Inv_stack_integers:
  "Inv m P S prog toks stk vs loc ls \<Longrightarrow> stack_integers \<lparr>stack = S\<rparr> m = Some vs"
  by (auto simp: Inv_def stack_integers_def those_ints)

lemma count_list_addresses:
  "e \<in> set (addresses a n) \<Longrightarrow> count_list (addresses a n) e = 1"
proof (induction n)
  case 0
  then show ?case by simp
next
  case (Suc n)
  show ?case
  proof (cases "e = a + n")
    case True
    then have "e \<notin> set (addresses a n)" by (simp add: set_addresses)
    with True show ?thesis by (simp add: addresses_Suc count_list_0)
  next
    case False
    with Suc show ?thesis by (simp add: addresses_Suc)
  qed
qed

lemma tok_cell_token_cell:
  "cell m e = Some (token_cell t) \<Longrightarrow> tok_cell m e t"
  by (cases t) (simp_all add: tok_cell_def int_cell_def)

lemma cell_program_heap_token:
  assumes "heap m = program_heap h0 ts cap @ tail" and "k < length ts"
  shows "cell m (Suc (length h0) + k) = Some (token_cell (ts ! k))"
  using assms by (simp add: cell_def program_heap_def nth_append)

text \<open>The machine that \<open>compile\<close> and then \<open>createContext\<close> leave satisfies the invariant.\<close>

lemma Inv_initial:
  assumes h: "heap m = program_heap h0 ts cap @ [Some (list_cell [] INITIAL_STACK_CAPACITY)]"
  shows "Inv m (length h0) (Suc (length h0 + length ts))
           (addresses (Suc (length h0)) (length ts)) ts [] [] [] []"
proof -
  let ?P = "length h0" and ?S = "Suc (length h0 + length ts)"
  let ?prog = "addresses (Suc (length h0)) (length ts)"
  have P: "cell m ?P = Some (list_cell ?prog cap)"
    using h by (rule cell_program_heap_list)
  have S: "cell m ?S = Some (list_cell [] INITIAL_STACK_CAPACITY)"
    using h nth_append_length [of "program_heap h0 ts cap"]
    by (simp add: cell_def del: nth_append_length)
  have tk: "cell m (Suc ?P + k) = Some (token_cell (ts ! k))" if "k < length ts" for k
    using h that by (rule cell_program_heap_token)
  have refs: "refs_ok m (?prog @ [] @ [])"
    unfolding refs_ok_def
  proof
    fix e assume e: "e \<in> set (?prog @ [] @ [])"
    then obtain k where k: "k < length ts" "e = Suc ?P + k"
      by (auto simp: set_addresses intro: that [of "e - Suc ?P"])
    from e have "count_list (?prog @ [] @ []) e = 1"
      by (simp add: count_list_addresses)
    with tk [OF k(1)] k show "\<exists>ob. cell m e = Some ob \<and> type ob \<noteq> TF_OBJ_LIST \<and>
        int (count_list (?prog @ [] @ []) e) \<le> refcount ob"
      by simp
  qed
  have toks: "list_all2 (tok_cell m) ?prog ts"
    by (auto simp: list_all2_conv_all_nth intro!: tok_cell_token_cell dest: tk)
  show ?thesis
    unfolding Inv_def using P S refs toks
    by (simp add: list_cell_def INITIAL_STACK_CAPACITY_def)
qed

text \<open>A token list in which every symbol is a word of the dictionary.\<close>

fun known :: "token \<Rightarrow> bool" where
  "known (TInt v) = True"
| "known (TSym s) = (lookupOperation s \<noteq> None)"

lemma tokenize_loop_known:
  "tokenize_loop lb parser = Inr ts \<Longrightarrow> list_all known ts"
proof (induction lb parser arbitrary: ts rule: tokenize_loop.induct)
  case (1 lb parser0)
  from "1.prems" show ?case
    by (subst (asm) tokenize_loop.simps)
      (auto simp: Let_def split: if_splits sum.splits
        dest: "1.IH"(1) [OF _ refl] "1.IH"(2) [OF _ refl])
qed

lemma v_lookup_known: "lookupOperation s \<noteq> None \<Longrightarrow> v_lookup s \<noteq> None"
  by (simp add: lookupOperation_def operations_def v_lookup_def value_operations_def
      split: if_splits)

lemma v_lookup_errors:
  assumes "v_lookup s = Some f" and "f st = Inl (e, st')"
  shows "e = StackUnderflow \<or> e = DivisionByZero \<or> e = UndefinedBehaviour"
  using assms
  by (auto simp: v_lookup_def value_operations_def v_binary_def v_div_def v_print_def
      v_dup_def v_drop_def v_swap_def split: if_splits prod.splits option.splits)

lemma v_run_errors:
  assumes "list_all known ts" and "v_run ts st = Inl (e, st')"
  shows "e = StackUnderflow \<or> e = DivisionByZero \<or> e = UndefinedBehaviour"
  using assms
proof (induction ts arbitrary: st)
  case Nil
  then show ?case by simp
next
  case (Cons t ts)
  show ?case
  proof (cases "v_exec t st")
    case (Inl x)
    with Cons.prems have x: "x = (e, st')" by simp
    show ?thesis
    proof (cases t)
      case (TInt v)
      with Inl show ?thesis by (cases st) simp
    next
      case (TSym s)
      with Cons.prems(1) have "v_lookup s \<noteq> None" by (simp add: v_lookup_known)
      then obtain f where f: "v_lookup s = Some f" by auto
      with Inl TSym x have "f st = Inl (e, st')" by simp
      with f show ?thesis by (rule v_lookup_errors)
    qed
  next
    case (Inr st1)
    with Cons show ?thesis by simp
  qed
qed

lemma createContext_eq:
  "createContext m =
     Inr (\<lparr>stack = length (heap m)\<rparr>,
          m\<lparr>heap := heap m @ [Some (list_cell [] INITIAL_STACK_CAPACITY)]\<rparr>)"
  by (simp add: createContext_def createListObject_eq bind_def return_def list_cell_def)

lemma main_execute_corresponds:
  assumes tok: "tokenize lb program_txt = Inr ts"
  shows "\<exists>r. main_execute lb program_txt m = Some r \<and>
     (case v_run ts ([], stdout m) of
        Inr (vs, out) \<Rightarrow>
          (\<exists>m' stk. r = Inr ((Inr (length (heap m)),
                              \<lparr>stack = Suc (length (heap m) + length ts)\<rparr>), m') \<and>
             Inv m' (length (heap m)) (Suc (length (heap m) + length ts))
               (addresses (Suc (length (heap m))) (length ts)) ts stk vs [] [] \<and>
             stdout m' = out)
      | Inl (e, (vs, out)) \<Rightarrow>
          (\<exists>m' stk loc ls. r = Inl (e, m') \<and>
             Inv m' (length (heap m)) (Suc (length (heap m) + length ts))
               (addresses (Suc (length (heap m))) (length ts)) ts stk vs loc ls \<and>
             stdout m' = out))"
proof -
  define P where "P = length (heap m)"
  define S where "S = Suc (P + length ts)"
  define prog where "prog = addresses (Suc P) (length ts)"
  from compile_tokenize [of lb program_txt m] tok obtain cap where
    c: "compile lb program_txt m = Some (Inr (Inr P, m\<lparr>heap := program_heap (heap m) ts cap\<rparr>))"
    by (auto simp: P_def)
  define m1 where "m1 = m\<lparr>heap := program_heap (heap m) ts cap\<rparr>"
  define m2 where "m2 = m1\<lparr>heap := heap m1 @ [Some (list_cell [] INITIAL_STACK_CAPACITY)]\<rparr>"
  have ctx: "createContext m1 = Inr (\<lparr>stack = S\<rparr>, m2)"
    by (simp add: createContext_eq m2_def m1_def S_def P_def)
  have h2: "heap m2 = program_heap (heap m) ts cap @ [Some (list_cell [] INITIAL_STACK_CAPACITY)]"
    by (simp add: m2_def m1_def)
  have inv: "Inv m2 P S prog ts [] [] [] []"
    unfolding P_def S_def prog_def by (rule Inv_initial [OF h2])
  have len: "length prog = length ts" by (simp add: prog_def)
  from execute_loop_corresponds [OF inv, of 0] obtain r where
    r: "execute_loop 0 P \<lparr>stack = S\<rparr> m2 = Some r"
      "corresponds P S prog ts r (v_run ts ([], stdout m2))"
    by auto
  have out: "stdout m2 = stdout m" by (simp add: m2_def m1_def)
  have main: "main_execute lb program_txt m =
      (case r of Inl e \<Rightarrow> Some (Inl e) | Inr (_, m3) \<Rightarrow> Some (Inr ((Inr P, \<lparr>stack = S\<rparr>), m3)))"
    using c ctx r(1) by (simp add: main_execute_def execute_def m1_def [symmetric])
  show ?thesis
    using r(2) unfolding main out P_def [symmetric] S_def [symmetric] prog_def [symmetric]
    by (cases "v_run ts ([], stdout m)")
      (auto simp: corresponds_def split: prod.splits, blast)
qed

text \<open>
  What a run of \<open>main\<close> up to the return of \<open>execute\<close> shows: how it ends (the program
  ran to its end, the process exited, or the text did not compile), the Integers on the
  stack and the text printed.
\<close>

datatype ending = Completed | Halted fatal | Rejected syntax_error

definition observation ::
  "((syntax_error + addr) \<times> tfcontext) outcome option \<Rightarrow> tfcontext \<Rightarrow>
     (ending \<times> 32 word list option \<times> string) option" where
  "observation r context =
     (case r of
        None \<Rightarrow> None
      | Some (Inl (e, m')) \<Rightarrow> Some (Halted e, stack_integers context m', stdout m')
      | Some (Inr ((Inl err, _), m')) \<Rightarrow>
          Some (Rejected err, stack_integers context m', stdout m')
      | Some (Inr ((Inr p, _), m')) \<Rightarrow>
          Some (Completed, stack_integers context m', stdout m'))"

definition v_observation :: "fatal \<times> vstate + vstate \<Rightarrow> ending \<times> 32 word list option \<times> string" where
  "v_observation a =
     (case a of
        Inl (e, (vs, out)) \<Rightarrow> (Halted e, Some vs, out)
      | Inr (vs, out) \<Rightarrow> (Completed, Some vs, out))"

lemma main_execute_observation:
  assumes "tokenize lb program_txt = Inr ts"
  shows "observation (main_execute lb program_txt m)
           \<lparr>stack = Suc (length (heap m) + length ts)\<rparr> =
         Some (v_observation (v_run ts ([], stdout m)))"
  using main_execute_corresponds [OF assms, of m]
  by (cases "v_run ts ([], stdout m)")
    (auto simp: observation_def v_observation_def dest: Inv_stack_integers)

lemma known_token_cell:
  "known t \<Longrightarrow> type (token_cell t) = TF_OBJ_INT \<or>
     (type (token_cell t) = TF_OBJ_SYMBOL \<and> lookupOperation (str (token_cell t)) \<noteq> None)"
  by (cases t) simp_all

definition example_program :: machine where
  "example_program =
     \<lparr>heap = [Some \<lparr>type = TF_OBJ_LIST, refcount = 1, number = 0, str = [],
                     element = [1, 2, 3], capacity = 16\<rparr>,
               Some \<lparr>type = TF_OBJ_INT, refcount = 1, number = 7, str = [],
                     element = [], capacity = 0\<rparr>,
               Some \<lparr>type = TF_OBJ_SYMBOL, refcount = 1, number = 0, str = ''dup'',
                     element = [], capacity = 0\<rparr>,
               Some \<lparr>type = TF_OBJ_SYMBOL, refcount = 1, number = 0, str = ''*'',
                     element = [], capacity = 0\<rparr>],
      stdout = []\<rparr>"

lemma compile_example_1:
  "compile 64 ''7 dup *'' initial = Some (Inr (Inr 0, example_program))"
  by code_simp










section \<open>Integer literals\<close>

text \<open>A well-formed integer literal: an optional \<open>-\<close> and at least one decimal digit.\<close>

definition literal :: "string \<Rightarrow> bool" where
  "literal s =
     (case s of
        [] \<Rightarrow> False
      | c # cs \<Rightarrow> if c = CHR ''-'' then cs \<noteq> [] \<and> list_all isdigit cs
                 else list_all isdigit (c # cs))"

definition literal_value :: "string \<Rightarrow> int" where
  "literal_value s =
     (if s \<noteq> [] \<and> hd s = CHR ''-'' then - digits_value (tl s) else digits_value s)"

lemma takeWhile_all: "list_all P xs \<Longrightarrow> takeWhile P xs = xs"
  by (simp add: list_all_iff)

lemma takeWhile_append_stop:
  "list_all P xs \<Longrightarrow> rest = [] \<or> \<not> P (hd rest) \<Longrightarrow> takeWhile P (xs @ rest) = xs"
  by (cases rest) (auto simp: list_all_iff takeWhile_append)

definition ends_number :: "string \<Rightarrow> bool" where
  "ends_number rest = (rest = [] \<or> \<not> isdigit (hd rest))"

lemma literal_cases:
  assumes "literal s"
  obtains (digit) c cs where "s = c # cs" "isdigit c" "list_all isdigit cs"
  | (minus) c cs where "s = CHR ''-'' # c # cs" "isdigit c" "list_all isdigit cs"
proof (cases s)
  case Nil
  with assms show ?thesis by (simp add: literal_def)
next
  case (Cons c cs)
  show ?thesis
  proof (cases "c = CHR ''-''")
    case True
    with assms Cons obtain d ds where "cs = d # ds" "isdigit d" "list_all isdigit ds"
      by (cases cs) (auto simp: literal_def)
    with Cons True show ?thesis by (auto intro: minus)
  next
    case False
    with assms Cons show ?thesis by (auto simp: literal_def intro: digit)
  qed
qed

lemma literal_number:
  assumes "literal s" and "ends_number rest"
  shows "number_start \<lparr>program = s @ rest, line = l, column = c\<rparr>"
    and "number_chars (s @ rest) = s"
    and "fst (strtol lb (s @ rest)) = max (LONG_MIN lb) (min (LONG_MAX lb) (literal_value s))"
proof -
  show "number_start \<lparr>program = s @ rest, line = l, column = c\<rparr>"
    using assms(1)
    by (cases rule: literal_cases)
      (auto simp: number_start_def parserPeek_def program_at_def)
  show "number_chars (s @ rest) = s"
    using assms
    by (cases rule: literal_cases)
      (auto simp: number_chars_digit number_chars_minus ends_number_def
        intro: takeWhile_append_stop)
  show "fst (strtol lb (s @ rest)) = max (LONG_MIN lb) (min (LONG_MAX lb) (literal_value s))"
    using assms
    by (cases rule: literal_cases)
      (auto simp: strtol_digit strtol_minus ends_number_def literal_value_def
        takeWhile_append_stop dest: isdigit_not_sign)
qed

lemma literal_no_newline: "literal s \<Longrightarrow> c \<in> set s \<Longrightarrow> c \<noteq> CHR 0x0A \<and> c \<noteq> CHR 0x00"
  by (erule literal_cases) (auto simp: list_all_iff dest: isdigit_not_newline isdigit_not_NUL)

lemma advance_pos_line:
  "\<forall>c\<in>set cs. c \<noteq> CHR 0x0A \<Longrightarrow> advance_pos (l, k) cs = (l, k + int (length cs))"
  by (induction cs arbitrary: k) auto

lemma consume_literal:
  assumes "literal s"
  shows "consume s \<lparr>program = s @ rest, line = l, column = c\<rparr>
     = \<lparr>program = rest, line = l, column = c + int (length s)\<rparr>"
  using literal_no_newline [OF assms]
  by (simp add: consume_def advance_pos_line)

section \<open>Tokenizing one token at a time\<close>

definition tokenize_token :: "nat \<Rightarrow> tfparser \<Rightarrow> syntax_error + token list" where
  "tokenize_token lb parser =
     (if parserPeek parser = CHR 0x00 then Inr []
      else if number_start parser
        then (case tokenize_loop lb (consume (number_chars (program parser)) parser) of
                Inl e \<Rightarrow> Inl e
              | Inr ts \<Rightarrow> Inr (TInt (word_of_int (fst (strtol lb (program parser)))) # ts))
      else if lookupOperation (symbol_chars (program parser)) = None
        then Inl (SyntaxError (line parser) (column parser))
      else (case tokenize_loop lb (consume (symbol_chars (program parser)) parser) of
              Inl e \<Rightarrow> Inl e
            | Inr ts \<Rightarrow> Inr (TSym (symbol_chars (program parser)) # ts)))"

lemma parserSkipWhiteSpace_NUL:
  "parserPeek parser = CHR 0x00 \<Longrightarrow> parserSkipWhiteSpace parser = parser"
  by (subst parserSkipWhiteSpace.simps) simp

lemma tokenize_loop_token:
  "tokenize_loop lb parser = tokenize_token lb (parserSkipWhiteSpace parser)"
  by (subst tokenize_loop.simps)
    (simp add: tokenize_token_def Let_def parserSkipWhiteSpace_NUL)

lemma parserSkipWhiteSpace_space:
  assumes "isspace x"
  shows "parserSkipWhiteSpace \<lparr>program = x # rest, line = l, column = c\<rparr> =
     parserSkipWhiteSpace
       (if x = CHR 0x0A then \<lparr>program = rest, line = l + 1, column = 1\<rparr>
        else \<lparr>program = rest, line = l, column = c + 1\<rparr>)"
proof -
  from assms have "x \<noteq> CHR 0x00" by auto
  with assms show ?thesis
    by (subst parserSkipWhiteSpace.simps) (simp add: parserPeek_def parserAdvance_def)
qed

lemma parserSkipWhiteSpace_stop:
  assumes "s = [] \<or> \<not> isspace (hd s)"
  shows "parserSkipWhiteSpace \<lparr>program = s, line = l, column = c\<rparr>
     = \<lparr>program = s, line = l, column = c\<rparr>"
  using assms
  by (subst parserSkipWhiteSpace.simps) (cases s; simp add: parserPeek_def)

lemma tokenize_loop_end [simp]:
  "tokenize_loop lb \<lparr>program = [], line = l, column = c\<rparr> = Inr []"
  by (subst tokenize_loop.simps) (simp add: parserPeek_def)

lemma tokenize_loop_space:
  assumes "isspace x"
  shows "tokenize_loop lb \<lparr>program = x # rest, line = l, column = c\<rparr> =
     tokenize_loop lb
       (if x = CHR 0x0A then \<lparr>program = rest, line = l + 1, column = 1\<rparr>
        else \<lparr>program = rest, line = l, column = c + 1\<rparr>)"
  unfolding tokenize_loop_token parserSkipWhiteSpace_space [OF assms] ..

lemma literal_not_space: "literal s \<Longrightarrow> s @ rest = [] \<or> \<not> isspace (hd (s @ rest))"
  by (erule literal_cases) (auto dest: isdigit_not_space)

lemma tokenize_loop_number:
  assumes "literal s" and "ends_number rest"
  shows "tokenize_loop lb \<lparr>program = s @ rest, line = l, column = c\<rparr> =
     (case tokenize_loop lb \<lparr>program = rest, line = l, column = c + int (length s)\<rparr> of
        Inl e \<Rightarrow> Inl e
      | Inr ts \<Rightarrow>
          Inr (TInt (word_of_int (max (LONG_MIN lb) (min (LONG_MAX lb) (literal_value s)))) # ts))"
proof -
  let ?p = "\<lparr>program = s @ rest, line = l, column = c\<rparr>"
  have skip: "parserSkipWhiteSpace ?p = ?p"
    by (rule parserSkipWhiteSpace_stop) (rule literal_not_space [OF assms(1)])
  have peek: "parserPeek ?p \<noteq> CHR 0x00"
    using assms(1) by (cases rule: literal_cases) (auto simp: parserPeek_def dest: isdigit_not_NUL)
  show ?thesis
    unfolding tokenize_loop_token [of lb ?p] skip tokenize_token_def
    using peek literal_number(1) [OF assms, of l c] literal_number(2) [OF assms]
      literal_number(3) [OF assms, of lb] consume_literal [OF assms(1), of rest l c]
    by (simp cong: sum.case_cong)
qed

definition ends_symbol :: "string \<Rightarrow> bool" where
  "ends_symbol rest = (rest = [] \<or> isspace (hd rest) \<or> hd rest = CHR 0x00)"

definition symbol_name :: "string \<Rightarrow> bool" where
  "symbol_name name =
     (name \<noteq> [] \<and> (\<forall>c\<in>set name. \<not> isspace c \<and> c \<noteq> CHR 0x00) \<and>
      \<not> isdigit (hd name) \<and> \<not> (hd name = CHR ''-'' \<and> tl name \<noteq> [] \<and> isdigit (hd (tl name))))"

lemma symbol_chars_append:
  assumes "\<forall>c\<in>set name. \<not> isspace c \<and> c \<noteq> CHR 0x00" and "ends_symbol rest"
  shows "symbol_chars (name @ rest) = name"
  unfolding symbol_chars_def
  by (rule takeWhile_append_stop) (use assms in \<open>auto simp: list_all_iff ends_symbol_def\<close>)

lemma isspace_cases:
  "isspace c \<longleftrightarrow> c = CHR '' '' \<or> c = CHR 0x09 \<or> c = CHR 0x0A \<or> c = CHR 0x0B \<or>
     c = CHR 0x0C \<or> c = CHR 0x0D"
  by (simp add: isspace_def)

lemma tokenize_loop_symbol:
  assumes "symbol_name name" and "ends_symbol rest"
    and "name = CHR ''-'' # [] \<longrightarrow> rest = [] \<or> \<not> isdigit (hd rest)"
  shows "tokenize_loop lb \<lparr>program = name @ rest, line = l, column = c\<rparr> =
     (if lookupOperation name = None then Inl (SyntaxError l c)
      else (case tokenize_loop lb \<lparr>program = rest, line = l, column = c + int (length name)\<rparr> of
              Inl e \<Rightarrow> Inl e
            | Inr ts \<Rightarrow> Inr (TSym name # ts)))"
proof -
  let ?p = "\<lparr>program = name @ rest, line = l, column = c\<rparr>"
  from assms(1) obtain x xs where name: "name = x # xs" and x: "\<not> isspace x" "x \<noteq> CHR 0x00"
    and cs: "\<forall>c\<in>set name. \<not> isspace c \<and> c \<noteq> CHR 0x00"
    by (cases name) (auto simp: symbol_name_def)
  have skip: "parserSkipWhiteSpace ?p = ?p"
    by (rule parserSkipWhiteSpace_stop) (simp add: name x)
  have peek: "parserPeek ?p \<noteq> CHR 0x00" by (simp add: parserPeek_def name x)
  have nl: "\<forall>c\<in>set name. c \<noteq> CHR 0x0A" using cs by (auto simp: isspace_def)
  have nonum: "\<not> number_start ?p"
  proof (cases xs)
    case Nil
    with assms(1,2,3) name show ?thesis
      by (cases rest) (auto simp: number_start_def parserPeek_def program_at_def symbol_name_def)
  next
    case (Cons y ys)
    with assms(1) name show ?thesis
      by (auto simp: number_start_def parserPeek_def program_at_def symbol_name_def)
  qed
  have sc: "symbol_chars (name @ rest) = name"
    using cs assms(2) by (rule symbol_chars_append)
  have co: "consume name ?p = \<lparr>program = rest, line = l, column = c + int (length name)\<rparr>"
    using nl by (simp add: consume_def advance_pos_line)
  show ?thesis
    unfolding tokenize_loop_token [of lb ?p] skip tokenize_token_def
    using peek nonum sc co by (simp cong: sum.case_cong)
qed

section \<open>Decimal numerals\<close>

lemma digit_char_digit: "d < 10 \<Longrightarrow> isdigit (digit_char d)"
  by (simp add: digit_char_def isdigit_def)

lemma digit_value_digit_char: "d < 10 \<Longrightarrow> digit_value (digit_char d) = int d"
proof -
  assume d: "d < 10"
  have "(of_char (char_of (48 + d)) :: int) = int (of_char (char_of (48 + d)))"
    by (simp only: of_nat_of_char)
  also have "\<dots> = int (48 + d)" using d by simp
  finally show ?thesis by (simp add: digit_char_def digit_value_def)
qed

lemma digits_value_snoc: "digits_value (ds @ [c]) = 10 * digits_value ds + digit_value c"
  by (simp add: digits_value_def)

lemma digits_nonempty: "digits n \<noteq> []"
  by (subst digits.simps) simp

lemma digits_isdigit: "list_all isdigit (digits n)"
proof (induction n rule: digits.induct)
  case (1 n)
  then show ?case
    by (subst digits.simps) (simp add: digit_char_digit)
qed

lemma digits_value_digits: "digits_value (digits n) = int n"
proof (induction n rule: digits.induct)
  case (1 n)
  show ?case
  proof (cases "n < 10")
    case True
    then show ?thesis
      by (subst digits.simps) (simp add: digits_value_def digit_value_digit_char)
  next
    case False
    with 1 have "digits_value (digits (n div 10)) = int (n div 10)" by simp
    with False show ?thesis
      by (subst digits.simps)
        (simp add: digits_value_snoc digit_value_digit_char zdiv_int zmod_int)
  qed
qed

lemma literal_digits: "literal (digits n)"
proof -
  obtain c cs where d: "digits n = c # cs"
    using digits_nonempty [of n] by (cases "digits n") auto
  with digits_isdigit [of n] have "isdigit c" "list_all isdigit cs" by auto
  with d show ?thesis by (auto simp: literal_def dest: isdigit_not_sign)
qed

lemma literal_decimal: "literal (decimal i)"
  using digits_nonempty digits_isdigit literal_digits
  by (auto simp: decimal_def literal_def)

lemma literal_value_decimal: "literal_value (decimal i) = i"
proof (cases "i < 0")
  case True
  then show ?thesis by (simp add: decimal_def literal_value_def digits_value_digits)
next
  case False
  obtain c cs where d: "digits (nat i) = c # cs"
    using digits_nonempty [of "nat i"] by (cases "digits (nat i)") auto
  with digits_isdigit [of "nat i"] have "c \<noteq> CHR ''-''" by (auto dest: isdigit_not_sign)
  with False d digits_value_digits [of "nat i"] show ?thesis
    by (simp add: decimal_def literal_value_def)
qed

text \<open>A \<open>long\<close> of at least 32 bits holds every \<open>int\<close>.\<close>

lemma long_holds_int:
  assumes "32 \<le> lb" and "- (2 ^ 31) \<le> v" and "v \<le> 2 ^ 31 - 1"
  shows "max (LONG_MIN lb) (min (LONG_MAX lb) v) = v"
proof -
  from assms(1) have "31 \<le> lb - 1" by simp
  then have "(2::int) ^ 31 \<le> 2 ^ (lb - 1)" by (rule power_increasing) simp
  with assms(2,3) show ?thesis by (simp add: LONG_MIN_def LONG_MAX_def)
qed

lemma long_holds_sint:
  "32 \<le> lb \<Longrightarrow> max (LONG_MIN lb) (min (LONG_MAX lb) (sint (a :: 32 word))) = sint a"
  using sint_ge [of a] sint_lt [of a] by (intro long_holds_int) simp_all

lemma tokenize_literal:
  assumes "literal s"
  shows "tokenize lb s =
     Inr [TInt (word_of_int (max (LONG_MIN lb) (min (LONG_MAX lb) (literal_value s))))]"
  using tokenize_loop_number [OF assms, of "[]" lb 1 1]
  by (simp add: tokenize_def ends_number_def)

lemma v_lookups:
  "v_lookup ''+'' = Some (v_binary (+))" "v_lookup ''-'' = Some (v_binary (-))"
  "v_lookup ''*'' = Some (v_binary (*))" "v_lookup ''/'' = Some v_div"
  "v_lookup ''.'' = Some v_print" "v_lookup ''swap'' = Some v_swap"
  by (simp_all add: v_lookup_def value_operations_def streq_def cstr_def)

lemma lookupOperations:
  "lookupOperation ''+'' \<noteq> None" "lookupOperation ''-'' \<noteq> None"
  "lookupOperation ''*'' \<noteq> None" "lookupOperation ''/'' \<noteq> None"
  "lookupOperation ''.'' \<noteq> None" "lookupOperation ''swap'' \<noteq> None"
  by (simp_all add: lookupOperation_def operations_def streq_def cstr_def)

lemma symbol_names:
  "symbol_name ''+''" "symbol_name ''-''" "symbol_name ''*''" "symbol_name ''/''"
  "symbol_name ''.''" "symbol_name ''swap''"
  by (simp_all add: symbol_name_def isspace_def isdigit_def)

lemma ends_simps [simp]:
  "ends_number []" "ends_number (CHR '' '' # rest)" "ends_symbol []"
  "ends_symbol (CHR '' '' # rest)"
  by (simp_all add: ends_number_def ends_symbol_def isdigit_def isspace_def)

lemma isspace_blank [simp]: "isspace CHR '' ''"
  by (simp add: isspace_def)

text \<open>The tokens of \<open>a b op\<close>, for two literals and a word of the dictionary.\<close>

lemma tokenize_binary:
  assumes "literal sa" and "literal sb" and "symbol_name name" and "lookupOperation name \<noteq> None"
  shows "tokenize lb (sa @ '' '' @ sb @ '' '' @ name) =
     Inr [TInt (word_of_int (max (LONG_MIN lb) (min (LONG_MAX lb) (literal_value sa)))),
          TInt (word_of_int (max (LONG_MIN lb) (min (LONG_MAX lb) (literal_value sb)))),
          TSym name]"
proof -
  have 3: "tokenize_loop lb \<lparr>program = name @ [], line = l, column = c\<rparr> = Inr [TSym name]"
    for l c
    using assms(3,4) by (subst tokenize_loop_symbol) auto
  have 2: "tokenize_loop lb \<lparr>program = sb @ CHR '' '' # name, line = l, column = c\<rparr> =
      Inr [TInt (word_of_int (max (LONG_MIN lb) (min (LONG_MAX lb) (literal_value sb)))),
           TSym name]" for l c
    using 3 by (simp add: tokenize_loop_number [OF assms(2)] tokenize_loop_space)
  show ?thesis
    using 2 by (simp add: tokenize_def tokenize_loop_number [OF assms(1)] tokenize_loop_space)
qed

lemma literal_examples:
  "literal ''1''" "literal ''2''" "literal ''5''" "literal ''0''" "literal ''3''"
  "literal ''-42''" "literal ''4294967296''"
  by (simp_all add: literal_def isdigit_def)

lemma literal_value_examples:
  "literal_value ''1'' = 1" "literal_value ''2'' = 2" "literal_value ''5'' = 5"
  "literal_value ''0'' = 0" "literal_value ''3'' = 3" "literal_value ''-42'' = - 42"
  "literal_value ''4294967296'' = 4294967296"
  by (simp_all add: literal_value_def digits_value_def digit_value_def)

lemma decimal_examples:
  "decimal 1 = ''1'' \<and> decimal 2 = ''2'' \<and> decimal (- 7) = ''-7'' \<and> decimal 3 = ''3''"
  by code_simp

lemma tokenize_swap_print:
  assumes "32 \<le> lb"
  shows "tokenize lb ''1 2 swap'' = Inr [TInt 1, TInt 2, TSym ''swap'']"
    and "tokenize lb ''1 2 swap . .'' =
      Inr [TInt 1, TInt 2, TSym ''swap'', TSym ''.'', TSym ''.'']"
proof -
  have n1: "max (LONG_MIN lb) (min (LONG_MAX lb) 1) = 1"
    and n2: "max (LONG_MIN lb) (min (LONG_MAX lb) 2) = 2"
    using assms by (simp_all add: long_holds_int)
  show "tokenize lb ''1 2 swap'' = Inr [TInt 1, TInt 2, TSym ''swap'']"
    using tokenize_binary [OF literal_examples(1,2) symbol_names(6) lookupOperations(6), of lb]
    by (simp add: literal_value_examples n1 n2)
  have 5: "tokenize_loop lb \<lparr>program = ''.'', line = l, column = c\<rparr> = Inr [TSym ''.'']" for l c
    using tokenize_loop_symbol [OF symbol_names(5), of "[]" lb l c]
    by (simp add: lookupOperations)
  have 4: "tokenize_loop lb \<lparr>program = ''. .'', line = l, column = c\<rparr> =
      Inr [TSym ''.'', TSym ''.'']" for l c
    using tokenize_loop_symbol [OF symbol_names(5), of "'' .''" lb l c] 5
    by (simp add: lookupOperations tokenize_loop_space)
  have 3: "tokenize_loop lb \<lparr>program = ''swap . .'', line = l, column = c\<rparr> =
      Inr [TSym ''swap'', TSym ''.'', TSym ''.'']" for l c
    using tokenize_loop_symbol [OF symbol_names(6), of "'' . .''" lb l c] 4
    by (simp add: lookupOperations tokenize_loop_space)
  have 2: "tokenize_loop lb \<lparr>program = ''2 swap . .'', line = l, column = c\<rparr> =
      Inr [TInt 2, TSym ''swap'', TSym ''.'', TSym ''.'']" for l c
    using tokenize_loop_number [OF literal_examples(2), of "'' swap . .''" lb l c] 3
    by (simp add: literal_value_examples n2 tokenize_loop_space)
  show "tokenize lb ''1 2 swap . .'' =
      Inr [TInt 1, TInt 2, TSym ''swap'', TSym ''.'', TSym ''.'']"
    using tokenize_loop_number [OF literal_examples(1), of "'' 2 swap . .''" lb 1 1] 2
    by (simp add: tokenize_def literal_value_examples n1 tokenize_loop_space)
qed

section \<open>Operands on the stack\<close>

lemma sint_word_of_int_32:
  "- (2 ^ 31) \<le> q \<Longrightarrow> q < 2 ^ 31 \<Longrightarrow> sint (word_of_int q :: 32 word) = q"
  by (simp add: sint_sbintrunc' signed_take_bit_int_eq_self_iff)




lemma pop_two:
  assumes "cell m (stack cx) = Some s" and "element s = xs @ [pa, pb]"
  shows "bind (stackPop cx) (\<lambda>b. bind (stackPop cx) (\<lambda>a. k a b)) m =
     k pa pb (m\<lparr>heap := (heap m)[stack cx := Some (s\<lparr>element := xs\<rparr>)]\<rparr>)"
proof -
  let ?m1 = "m\<lparr>heap := (heap m)[stack cx := Some (s\<lparr>element := xs @ [pa]\<rparr>)]\<rparr>"
  have e: "element s = (xs @ [pa]) @ [pb]"
    using assms(2) by simp
  have l: "stack cx < length (heap m)"
    using assms(1) by (rule cell_Some_less)
  have 1: "stackPop cx m = Inr (pb, ?m1)"
    using stackPop_eq [OF assms(1) e] .
  have 2: "stackPop cx ?m1 =
      Inr (pa, m\<lparr>heap := (heap m)[stack cx := Some (s\<lparr>element := xs\<rparr>)]\<rparr>)"
    using l stackPop_eq [of ?m1 cx "s\<lparr>element := xs @ [pa]\<rparr>" xs pa] by simp
  show ?thesis
    using 1 2 by (simp add: bind_def)
qed


definition released :: "addr \<Rightarrow> machine \<Rightarrow> machine" where
  "released p m =
     (case cell m p of
        None \<Rightarrow> m
      | Some ob \<Rightarrow>
          m\<lparr>heap := (heap m)[p := (if refcount ob = 1 then None
                                     else Some (ob\<lparr>refcount := refcount ob - 1\<rparr>))]\<rparr>)"

lemma decrementReferenceCount_released:
  "cell m p = Some ob \<Longrightarrow> type ob \<noteq> TF_OBJ_LIST \<Longrightarrow>
     decrementReferenceCount p m = Inr ((), released p m)"
  by (simp add: decrementReferenceCount_nonlist released_def)

lemma cell_released:
  "cell (released p m) q =
     (if q = p then (case cell m p of None \<Rightarrow> None
        | Some ob \<Rightarrow> if refcount ob = 1 then None else Some (ob\<lparr>refcount := refcount ob - 1\<rparr>))
      else cell m q)"
  by (auto simp: released_def cell_def split: option.splits)

lemma released_length [simp]: "length (heap (released p m)) = length (heap m)"
  by (simp add: released_def split: option.splits)

lemma released_stdout [simp]: "stdout (released p m) = stdout m"
  by (simp add: released_def split: option.splits)

lemma release_two:
  assumes "cell m pa = Some oa" and "type oa \<noteq> TF_OBJ_LIST"
    and "cell m pb = Some ob" and "type ob \<noteq> TF_OBJ_LIST"
    and "pa = pb \<longrightarrow> refcount oa \<noteq> 1"
  shows "bind (decrementReferenceCount pa) (\<lambda>_. decrementReferenceCount pb) m =
     Inr ((), released pb (released pa m))"
proof -
  have 1: "decrementReferenceCount pa m = Inr ((), released pa m)"
    using assms(1,2) by (rule decrementReferenceCount_released)
  have "\<exists>ob'. cell (released pa m) pb = Some ob' \<and> type ob' \<noteq> TF_OBJ_LIST"
    using assms by (cases "pa = pb") (simp_all add: cell_released)
  then obtain ob' where c: "cell (released pa m) pb = Some ob'" and t: "type ob' \<noteq> TF_OBJ_LIST"
    by blast
  have 2: "decrementReferenceCount pb (released pa m) = Inr ((), released pb (released pa m))"
    using c t by (rule decrementReferenceCount_released)
  show ?thesis
    using 1 2 by (simp add: bind_def)
qed



text \<open>Releasing an object always ends; what it leaves of the heap and of the output.\<close>

lemma release_total:
  "decrementReferenceCount_freeObject_freeObject_loop_dom (Inl (object, m))"
  "decrementReferenceCount_freeObject_freeObject_loop_dom (Inr (Inl (object, m)))"
  "decrementReferenceCount_freeObject_freeObject_loop_dom (Inr (Inr (i, object, m)))"
proof (induction object m and object m and i object m
    rule: decrementReferenceCount_freeObject_freeObject_loop.induct)
  case (1 object m)
  show ?case
    by (rule decrementReferenceCount_freeObject_freeObject_loop.domintros) (auto intro: 1)
next
  case (2 object m)
  show ?case
    by (rule decrementReferenceCount_freeObject_freeObject_loop.domintros) (auto intro: 2)
next
  case (3 i object m)
  show ?case
    using 3 by - (rule decrementReferenceCount_freeObject_freeObject_loop.domintros, simp_all)
qed

lemma release_heap:
  assumes "decrementReferenceCount object m = Inr (u, m')"
  shows "shrinks m' m"
  using release_shrinks(1) [OF release_total(1) assms] .

lemma release_stdout:
  "decrementReferenceCount object m = Inr (u, m') \<Longrightarrow> stdout m' = stdout m"
  "freeObject object m = Inr (u, m') \<Longrightarrow> stdout m' = stdout m"
  "freeObject_loop i object m = Inr (u, m') \<Longrightarrow> stdout m' = stdout m"
proof (induction object m and object m and i object m arbitrary: u m' and u m' and u m'
    rule: decrementReferenceCount_freeObject_freeObject_loop.induct)
  case (1 object m)
  from "1.prems" obtain ob m1 where
    d: "deref object m = Inr (ob, m)" and
    s: "store object (ob\<lparr>refcount := refcount ob - 1\<rparr>) m = Inr ((), m1)" and
    r: "(if refcount ob - 1 = 0 then freeObject object m1 else return () m1) = Inr (u, m')"
    by (auto simp: decrementReferenceCount.simps bind_Inr deref_Inr)
  have "stdout m1 = stdout m"
    using s by (auto simp: store_Inr)
  moreover have "stdout m' = stdout m1"
    using r "1.IH" [OF d s] by (auto simp: return_def split: if_splits)
  ultimately show ?case by simp
next
  case (2 object m)
  from "2.prems" obtain ob m1 u1 where
    d: "deref object m = Inr (ob, m)" and
    l: "(if type ob = TF_OBJ_LIST then freeObject_loop 0 object m else return () m) = Inr (u1, m1)" and
    f: "free object m1 = Inr (u, m')"
    by (auto simp: freeObject.simps bind_Inr deref_Inr)
  have "stdout m1 = stdout m"
    using l "2.IH" [OF d] by (auto simp: return_def split: if_splits)
  moreover have "stdout m' = stdout m1"
    using f by (auto simp: free_Inr)
  ultimately show ?case by simp
next
  case (3 i object m)
  from "3.prems" obtain ob where
    d: "deref object m = Inr (ob, m)" and
    r: "(if i < length (element ob)
         then bind (\<lambda>m'. decrementReferenceCount (element ob ! i) m')
                (\<lambda>_ m'. freeObject_loop (i + 1) object m') m
         else return () m) = Inr (u, m')"
    by (auto simp: freeObject_loop.simps bind_Inr deref_Inr)
  show ?case
  proof (cases "i < length (element ob)")
    case True
    with r obtain u1 m1 where
      a: "decrementReferenceCount (element ob ! i) m = Inr (u1, m1)" and
      b: "freeObject_loop (i + 1) object m1 = Inr (u, m')"
      by (auto simp: bind_Inr)
    have "stdout m1 = stdout m" using "3.IH"(1) [OF d True a] .
    moreover have "stdout m' = stdout m1" using "3.IH"(2) [OF d True a b] .
    ultimately show ?thesis by simp
  next
    case False
    with r show ?thesis by (simp add: return_def)
  qed
qed

lemma release_cell:
  assumes "decrementReferenceCount object m = Inr (u, m')"
  shows "length (heap m') = length (heap m)"
    and "cell m' p = None \<or> (\<exists>ob ob'. cell m p = Some ob \<and> cell m' p = Some ob' \<and>
           element ob' = element ob)"
proof -
  have sh: "list_all2 le_cell (heap m') (heap m)"
    using release_heap [OF assms] by (simp add: shrinks_def)
  show len: "length (heap m') = length (heap m)"
    using sh by (rule list_all2_lengthD)
  show "cell m' p = None \<or> (\<exists>ob ob'. cell m p = Some ob \<and> cell m' p = Some ob' \<and>
      element ob' = element ob)"
  proof (cases "p < length (heap m)")
    case True
    hence "le_cell (heap m' ! p) (heap m ! p)"
      using sh by (simp add: list_all2_conv_all_nth)
    thus ?thesis
      using True len by (auto simp: cell_def le_cell_def split: option.splits)
  next
    case False
    thus ?thesis using len by (simp add: cell_def)
  qed
qed

lemma operations_without_integers:
  assumes "cell m pa = Some oa" and "cell m pb = Some ob"
    and "type oa \<noteq> TF_OBJ_INT \<or> type ob \<noteq> TF_OBJ_INT"
  shows
    "bind (deref pa) (\<lambda>oa. bind (deref pb) (\<lambda>ob.
       bind (if type oa = TF_OBJ_INT \<and> type ob = TF_OBJ_INT then f oa ob else return ())
         (\<lambda>_. bind (decrementReferenceCount pa) (\<lambda>_. decrementReferenceCount pb)))) m =
     bind (decrementReferenceCount pa) (\<lambda>_. decrementReferenceCount pb) m"
  using assms by (auto simp: bind_def deref_cell return_def)

definition operand_example :: machine where
  "operand_example =
     \<lparr>heap = [Some \<lparr>type = TF_OBJ_LIST, refcount = 1, number = 0, str = [],
                     element = [1, 2], capacity = 16\<rparr>,
               Some \<lparr>type = TF_OBJ_BOOL, refcount = 1, number = 1, str = [],
                     element = [], capacity = 0\<rparr>,
               Some \<lparr>type = TF_OBJ_INT, refcount = 2, number = 7, str = [],
                     element = [], capacity = 0\<rparr>],
      stdout = []\<rparr>"

section \<open>The position of a token\<close>
















section \<open>The texts of integer literals\<close>

text \<open>
  The text of an integer literal: an optional minus sign, then zeros, then the digits of a
  natural number as \<open>printf\<close> writes them. Every integer literal is such a text.
\<close>

definition numeral_text :: "bool \<Rightarrow> nat \<Rightarrow> nat \<Rightarrow> string" where
  "numeral_text neg k n = (if neg then ''-'' else []) @ replicate k CHR ''0'' @ digits n"

lemma digit_char_zero: "digit_char 0 = CHR ''0''"
  by code_simp

lemma isdigit_digit_char: "isdigit c \<Longrightarrow> \<exists>d<10. c = digit_char d"
  by (rule exI [of _ "of_char c - 48"]) (auto simp: isdigit_def digit_char_def)

lemma digits_snoc: "0 < n \<Longrightarrow> d < 10 \<Longrightarrow> digits (10 * n + d) = digits n @ [digit_char d]"
  by (subst digits.simps) simp

lemma digits_small: "d < 10 \<Longrightarrow> digits d = [digit_char d]"
  by (subst digits.simps) simp

lemma digit_string_form:
  assumes "ds \<noteq> []" and "list_all isdigit ds"
  shows "\<exists>k n. ds = replicate k CHR ''0'' @ digits n"
  using assms
proof (induction ds rule: rev_induct)
  case Nil
  then show ?case by simp
next
  case (snoc c ds)
  from snoc.prems obtain d where d: "d < 10" "c = digit_char d"
    using isdigit_digit_char [of c] by auto
  show ?case
  proof (cases "ds = []")
    case True
    have "ds @ [c] = replicate 0 CHR ''0'' @ digits d"
      using True d by (simp add: digits_small)
    then show ?thesis by blast
  next
    case False
    with snoc obtain k n where kn: "ds = replicate k CHR ''0'' @ digits n"
      by auto
    show ?thesis
    proof (cases "n = 0")
      case True
      have "ds @ [c] = replicate (Suc k) CHR ''0'' @ digits d"
        using kn True d
        by (simp add: digits_small digit_char_zero replicate_append_same)
      then show ?thesis by blast
    next
      case False
      have "ds @ [c] = replicate k CHR ''0'' @ digits (10 * n + d)"
        using kn False d by (simp add: digits_snoc)
      then show ?thesis by blast
    qed
  qed
qed

lemma literal_numeral_text:
  assumes "literal s"
  shows "\<exists>neg k n. s = numeral_text neg k n"
  using assms
proof (cases rule: literal_cases)
  case (digit c cs)
  then have "s \<noteq> []" "list_all isdigit s" by simp_all
  from digit_string_form [OF this] obtain k n where "s = replicate k CHR ''0'' @ digits n"
    by blast
  then have "s = numeral_text False k n" by (simp add: numeral_text_def)
  then show ?thesis by blast
next
  case (minus c cs)
  then have "c # cs \<noteq> []" "list_all isdigit (c # cs)" by simp_all
  from digit_string_form [OF this] obtain k n where "c # cs = replicate k CHR ''0'' @ digits n"
    by blast
  with minus have "s = numeral_text True k n" by (simp add: numeral_text_def)
  then show ?thesis by blast
qed

lemma zeros_isdigit: "list_all isdigit (replicate k CHR ''0'')"
  by (simp add: list_all_iff isdigit_def)

lemma numeral_text_literal: "literal (numeral_text neg k n)"
proof -
  let ?ds = "replicate k CHR ''0'' @ digits n"
  have ne: "?ds \<noteq> []" using digits_nonempty by simp
  have ad: "list_all isdigit ?ds" using zeros_isdigit digits_isdigit by simp
  from ne obtain c cs where c: "?ds = c # cs" by (cases ?ds) auto
  with ad have "isdigit c" by simp
  then have "c \<noteq> CHR ''-''" by (auto dest: isdigit_not_sign)
  with ne ad c show ?thesis
    by (cases neg) (simp_all add: numeral_text_def literal_def)
qed

lemma digits_value_zeros: "digits_value (replicate k CHR ''0'' @ ds) = digits_value ds"
proof -
  have "foldl (\<lambda>v c. 10 * v + digit_value c) 0 (replicate k CHR ''0'') = 0"
    by (induction k) (simp_all add: digit_value_def)
  then show ?thesis by (simp add: digits_value_def)
qed

lemma literal_value_numeral_text:
  "literal_value (numeral_text neg k n) = (if neg then - int n else int n)"
proof -
  let ?ds = "replicate k CHR ''0'' @ digits n"
  have ne: "?ds \<noteq> []" using digits_nonempty by simp
  have ad: "list_all isdigit ?ds" using zeros_isdigit digits_isdigit by simp
  from ne obtain c cs where c: "?ds = c # cs" by (cases ?ds) auto
  with ad have "isdigit c" by simp
  then have "hd ?ds \<noteq> CHR ''-''" using c by (auto dest: isdigit_not_sign)
  then show ?thesis
    using ne by (simp add: numeral_text_def literal_value_def digits_value_zeros digits_value_digits)
qed

lemma literal_run:
  assumes "literal s" and "- (2 ^ 31) \<le> literal_value s" and "literal_value s < 2 ^ 31"
    and "32 \<le> lb"
  shows "(\<exists>m1. compile lb s initial = Some (Inr (Inr 0, m1))) \<and>
         (\<exists>q. observation (main_execute lb s initial) \<lparr>stack = 2\<rparr> =
                Some (Completed, Some [q], []) \<and> sint q = literal_value s)"
proof -
  have "literal_value s \<le> 2 ^ 31 - 1"
    using assms(3) by simp
  then have tok: "tokenize lb s = Inr [TInt (word_of_int (literal_value s))]"
    using tokenize_literal [OF assms(1), of lb] long_holds_int [OF assms(4,2)] by simp
  have "\<exists>m1. compile lb s initial = Some (Inr (Inr 0, m1))"
    using compile_tokenize [of lb s initial] tok by (auto simp: initial_def)
  moreover have "observation (main_execute lb s initial) \<lparr>stack = 2\<rparr> =
      Some (Completed, Some [word_of_int (literal_value s)], [])"
    using main_execute_observation [OF tok, of initial]
    by (simp add: initial_def v_observation_def numeral_2_eq_2)
  moreover have "sint (word_of_int (literal_value s) :: 32 word) = literal_value s"
    using assms(2,3) by (intro sint_word_of_int_32) simp_all
  ultimately show ?thesis by blast
qed

lemma numeral_examples:
  "decimal (- 17) = ''-17'' \<and> numeral_text False 2 7 = ''007'' \<and>
   numeral_text True 0 0 = ''-0''"
  by code_simp

section \<open>Claims\<close>

text \<open>
  Claim C1. Whenever \<open>compile\<close> succeeds, every element of the program list that it returns
  is an Integer object or a Symbol object whose name \<open>lookupOperation\<close> resolves. When
  \<open>execute\<close> then runs this program on a context just created, the run ends, and it never
  takes the unknown-word branch or the unexecutable-object branch: if the run ends
  fatally, the ending is neither the unknown word nor the unexecutable object.
\<close>

theorem compiled_program_executable:
  assumes "compile lb program_txt m = Some (Inr (Inr program_list, m1))"
    and ctx: "createContext m1 = Inr (cx, m2)"
  shows "(\<exists>pl. cell m1 program_list = Some pl \<and> type pl = TF_OBJ_LIST \<and>
            (\<forall>object\<in>set (element pl). \<exists>ob. cell m1 object = Some ob \<and>
               (type ob = TF_OBJ_INT \<or>
                (type ob = TF_OBJ_SYMBOL \<and> lookupOperation (str ob) \<noteq> None)))) \<and>
         (\<exists>r. execute (Some program_list) cx m2 = Some r \<and>
            (case r of
               Inl (e, m') \<Rightarrow> e \<noteq> UnexecutableObject \<and> (\<forall>w. e \<noteq> UnknownWord w)
             | Inr (u, m') \<Rightarrow> True))"
proof -
  from compile_tokenize [of lb program_txt m] assms(1) obtain ts cap where
    tok: "tokenize lb program_txt = Inr ts" and P: "program_list = length (heap m)"
    and m1: "m1 = m\<lparr>heap := program_heap (heap m) ts cap\<rparr>"
    by (cases "tokenize lb program_txt") auto
  have kn: "list_all known ts"
    using tok unfolding tokenize_def by (rule tokenize_loop_known)
  define prog where "prog = addresses (Suc program_list) (length ts)"
  have h1: "heap m1 = program_heap (heap m) ts cap @ []" by (simp add: m1)
  have cP: "cell m1 program_list = Some (list_cell prog cap)"
    unfolding P prog_def by (rule cell_program_heap_list [OF h1])
  have "\<exists>ob. cell m1 object = Some ob \<and>
      (type ob = TF_OBJ_INT \<or> (type ob = TF_OBJ_SYMBOL \<and> lookupOperation (str ob) \<noteq> None))"
    if "object \<in> set prog" for object
  proof -
    from that obtain k where k: "k < length ts" "object = Suc (length (heap m)) + k"
      by (auto simp: prog_def P set_addresses intro: that [of "object - Suc (length (heap m))"])
    from kn k(1) have "known (ts ! k)" by (simp add: list_all_length)
    with cell_program_heap_token [OF h1 k(1)] k(2) show ?thesis
      by (auto dest: known_token_cell)
  qed
  with cP have part1: "\<exists>pl. cell m1 program_list = Some pl \<and> type pl = TF_OBJ_LIST \<and>
      (\<forall>object\<in>set (element pl). \<exists>ob. cell m1 object = Some ob \<and>
         (type ob = TF_OBJ_INT \<or> (type ob = TF_OBJ_SYMBOL \<and> lookupOperation (str ob) \<noteq> None)))"
    by (simp add: list_cell_def)
  define S where "S = Suc (program_list + length ts)"
  from ctx have c: "cx = \<lparr>stack = S\<rparr>"
    and h2: "heap m2 = program_heap (heap m) ts cap @ [Some (list_cell [] INITIAL_STACK_CAPACITY)]"
    by (auto simp: createContext_eq m1 S_def P)
  have inv: "Inv m2 program_list S prog ts [] [] [] []"
    unfolding P S_def prog_def by (rule Inv_initial [OF h2])
  from execute_loop_corresponds [OF inv, of 0] obtain r where
    r: "execute_loop 0 program_list \<lparr>stack = S\<rparr> m2 = Some r"
      "corresponds program_list S prog ts r (v_run ts ([], stdout m2))"
    by auto
  have "e = StackUnderflow \<or> e = DivisionByZero \<or> e = UndefinedBehaviour"
    if "r = Inl (e, m')" for e m'
    using r(2) that v_run_errors [OF kn, of "([], stdout m2)" e]
    by (cases "v_run ts ([], stdout m2)") (auto simp: corresponds_def split: prod.splits)
  then have "case r of Inl (e, m') \<Rightarrow> e \<noteq> UnexecutableObject \<and> (\<forall>w. e \<noteq> UnknownWord w)
      | Inr (u, m') \<Rightarrow> True"
    by (auto split: sum.splits)
  with r(1) have part2: "\<exists>r. execute (Some program_list) cx m2 = Some r \<and>
      (case r of Inl (e, m') \<Rightarrow> e \<noteq> UnexecutableObject \<and> (\<forall>w. e \<noteq> UnknownWord w)
       | Inr (u, m') \<Rightarrow> True)"
    by (auto simp: execute_def c)
  from part1 part2 show ?thesis by blast
qed

theorem compiled_program_executable_witness:
  "(\<exists>pl. cell example_program 0 = Some pl \<and> type pl = TF_OBJ_LIST \<and>
      (\<forall>object\<in>set (element pl). \<exists>ob. cell example_program object = Some ob \<and>
         (type ob = TF_OBJ_INT \<or>
          (type ob = TF_OBJ_SYMBOL \<and> lookupOperation (str ob) \<noteq> None)))) \<and>
   (\<exists>r. execute (Some 0) \<lparr>stack = 4\<rparr>
           (example_program\<lparr>heap := heap example_program @
              [Some (list_cell [] INITIAL_STACK_CAPACITY)]\<rparr>) = Some r \<and>
      (case r of
         Inl (e, m') \<Rightarrow> e \<noteq> UnexecutableObject \<and> (\<forall>w. e \<noteq> UnknownWord w)
       | Inr (u, m') \<Rightarrow> True))"
  by (rule compiled_program_executable [OF compile_example_1])
    (simp add: createContext_eq example_program_def)

text \<open>
  Claim C7. For every text, from every machine, \<open>compile\<close> returns, and in one of two ways.
  Either it returns the program list, and then the heap is the heap before, followed by
  the program list and by one object for each token of the whole text, in order, each held
  by the list alone. Or it returns no list but a syntax error, and then every cell that it
  allocated, the list and all the objects appended to it, has been freed, and the cells
  that were there before are untouched.
\<close>

theorem compile_all_or_nothing:
  "\<exists>r m'. compile lb program_txt m = Some (Inr (r, m')) \<and> stdout m' = stdout m \<and>
     (case r of
        Inr program_list \<Rightarrow>
          (\<exists>ts cap. tokenize lb program_txt = Inr ts \<and> program_list = length (heap m) \<and>
             heap m' = program_heap (heap m) ts cap)
      | Inl err \<Rightarrow>
          (\<exists>k. tokenize lb program_txt = Inl err \<and> heap m' = heap m @ replicate k None))"
  using compile_tokenize [of lb program_txt m]
  by (cases "tokenize lb program_txt") auto

theorem compile_all_or_nothing_witness:
  "\<exists>r m'. compile 64 ''3 foo'' initial = Some (Inr (r, m')) \<and> stdout m' = stdout initial \<and>
     (case r of
        Inr program_list \<Rightarrow>
          (\<exists>ts cap. tokenize 64 ''3 foo'' = Inr ts \<and> program_list = length (heap initial) \<and>
             heap m' = program_heap (heap initial) ts cap)
      | Inl err \<Rightarrow>
          (\<exists>k. tokenize 64 ''3 foo'' = Inl err \<and> heap m' = heap initial @ replicate k None))"
  by (rule compile_all_or_nothing)



text \<open>
  Claim C4. On a host whose \<open>long\<close> has at least 32 bits, for every integer \<open>i\<close> in the range
  of a 32-bit \<open>int\<close>: compiling the text that is the decimal numeral of \<open>i\<close> alone succeeds,
  and the run leaves exactly one object on the stack, an Integer equal to \<open>i\<close>. The same
  holds of every other way to write an integer literal, with zeros before the digits or
  with the sign of \<open>-0\<close>: every integer literal is an optional \<open>-\<close>, zeros and the digits of
  a natural number \<open>n\<close>, and it compiles and leaves the one Integer \<open>n\<close>, or \<open>- n\<close> after the
  sign. The text \<open>-17\<close> leaves the Integer \<open>- 17\<close>.
\<close>

theorem literal_compiles_and_pushes:
  assumes "32 \<le> lb"
  shows "(- (2 ^ 31) \<le> i \<and> i < 2 ^ 31 \<longrightarrow>
            (\<exists>m1. compile lb (decimal i) initial = Some (Inr (Inr 0, m1))) \<and>
            (\<exists>q. observation (main_execute lb (decimal i) initial) \<lparr>stack = 2\<rparr> =
                   Some (Completed, Some [q], []) \<and> sint q = i)) \<and>
         ((if neg then int n \<le> 2 ^ 31 else int n < 2 ^ 31) \<longrightarrow>
            (\<exists>m1. compile lb (numeral_text neg k n) initial = Some (Inr (Inr 0, m1))) \<and>
            (\<exists>q. observation (main_execute lb (numeral_text neg k n) initial) \<lparr>stack = 2\<rparr> =
                   Some (Completed, Some [q], []) \<and>
                 sint q = (if neg then - int n else int n))) \<and>
         (\<forall>s. literal s \<longrightarrow> (\<exists>neg k n. s = numeral_text neg k n)) \<and>
         observation (main_execute 64 ''-17'' initial) \<lparr>stack = 2\<rparr> =
           Some (Completed, Some [- 17], [])"
proof (intro conjI impI allI)
  assume "- (2 ^ 31) \<le> i \<and> i < 2 ^ 31"
  then have r: "- (2 ^ 31) \<le> literal_value (decimal i)" "literal_value (decimal i) < 2 ^ 31"
    by (simp_all add: literal_value_decimal)
  from literal_run [OF literal_decimal r assms]
  show "\<exists>m1. compile lb (decimal i) initial = Some (Inr (Inr 0, m1))"
    and "\<exists>q. observation (main_execute lb (decimal i) initial) \<lparr>stack = 2\<rparr> =
      Some (Completed, Some [q], []) \<and> sint q = i"
    by (simp_all add: literal_value_decimal)
next
  assume "if neg then int n \<le> 2 ^ 31 else int n < 2 ^ 31"
  then have r: "- (2 ^ 31) \<le> literal_value (numeral_text neg k n)"
    "literal_value (numeral_text neg k n) < 2 ^ 31"
    by (simp_all add: literal_value_numeral_text split: if_splits)
  from literal_run [OF numeral_text_literal r assms]
  show "\<exists>m1. compile lb (numeral_text neg k n) initial = Some (Inr (Inr 0, m1))"
    and "\<exists>q. observation (main_execute lb (numeral_text neg k n) initial) \<lparr>stack = 2\<rparr> =
      Some (Completed, Some [q], []) \<and> sint q = (if neg then - int n else int n)"
    by (simp_all add: literal_value_numeral_text)
next
  fix s assume "literal s"
  then show "\<exists>neg k n. s = numeral_text neg k n"
    by (rule literal_numeral_text)
next
  show "observation (main_execute 64 ''-17'' initial) \<lparr>stack = 2\<rparr> =
      Some (Completed, Some [- 17], [])"
    by code_simp
qed

theorem literal_compiles_and_pushes_witness:
  "(\<exists>m1. compile 64 ''-17'' initial = Some (Inr (Inr 0, m1))) \<and>
   (\<exists>q. observation (main_execute 64 ''-17'' initial) \<lparr>stack = 2\<rparr> =
          Some (Completed, Some [q], []) \<and> sint q = - 17) \<and>
   (\<exists>m1. compile 64 ''007'' initial = Some (Inr (Inr 0, m1))) \<and>
   (\<exists>q. observation (main_execute 64 ''007'' initial) \<lparr>stack = 2\<rparr> =
          Some (Completed, Some [q], []) \<and> sint q = 7) \<and>
   observation (main_execute 64 ''007'' initial) \<lparr>stack = 2\<rparr> =
     Some (Completed, Some [7], [])"
proof -
  have "observation (main_execute 64 ''007'' initial) \<lparr>stack = 2\<rparr> =
      Some (Completed, Some [7], [])"
    by code_simp
  then show ?thesis
    using literal_compiles_and_pushes [of 64 "- 17" False 7 2]
    by (simp add: numeral_examples)
qed

text \<open>
  Claim C2. For all 32-bit Integers \<open>a\<close> and \<open>b\<close>, written in decimal, the programs
  \<open>a b +\<close>, \<open>a b -\<close> and \<open>a b *\<close> each complete with a single Integer on the stack: the
  sum, the difference \<open>a - b\<close> (the operand popped first is \<open>b\<close>) and the product, in
  32-bit two's-complement arithmetic.
\<close>

theorem arithmetic_programs:
  assumes "32 \<le> lb"
  shows "observation (main_execute lb (decimal (sint a) @ '' '' @ decimal (sint b) @ '' +'') initial)
           \<lparr>stack = 4\<rparr> = Some (Completed, Some [a + b], []) \<and>
         observation (main_execute lb (decimal (sint a) @ '' '' @ decimal (sint b) @ '' -'') initial)
           \<lparr>stack = 4\<rparr> = Some (Completed, Some [a - b], []) \<and>
         observation (main_execute lb (decimal (sint a) @ '' '' @ decimal (sint b) @ '' *'') initial)
           \<lparr>stack = 4\<rparr> = Some (Completed, Some [a * b], [])"
proof -
  have tok: "tokenize lb (decimal (sint a) @ '' '' @ decimal (sint b) @ '' '' @ name) =
      Inr [TInt a, TInt b, TSym name]"
    if "symbol_name name" "lookupOperation name \<noteq> None" for name
    using tokenize_binary [OF literal_decimal [of "sint a"] literal_decimal [of "sint b"] that,
        of lb]
    by (simp add: literal_value_decimal long_holds_sint [OF assms])
  have S: "Suc (length (heap initial) + length [TInt a, TInt b, TSym name]) = 4" for name
    by (simp add: initial_def)
  show ?thesis
    using main_execute_observation [OF tok [OF symbol_names(1) lookupOperations(1)], of initial]
      main_execute_observation [OF tok [OF symbol_names(2) lookupOperations(2)], of initial]
      main_execute_observation [OF tok [OF symbol_names(3) lookupOperations(3)], of initial]
    unfolding S
    by (simp add: initial_def v_observation_def v_lookups v_binary_def)
qed

theorem arithmetic_programs_witness:
  "observation (main_execute 64 ''-7 3 +'' initial) \<lparr>stack = 4\<rparr> =
     Some (Completed, Some [- 4], []) \<and>
   observation (main_execute 64 ''-7 3 -'' initial) \<lparr>stack = 4\<rparr> =
     Some (Completed, Some [- 10], []) \<and>
   observation (main_execute 64 ''-7 3 *'' initial) \<lparr>stack = 4\<rparr> =
     Some (Completed, Some [- 21], [])"
  using arithmetic_programs [of 64 "- 7" 3]
  by (simp add: decimal_examples)

text \<open>
  Claim C8. The program \<open>1 2 swap\<close> completes with 2 at the bottom of the stack and 1 on
  top of it, and the program \<open>1 2 swap . .\<close> completes with an empty stack after printing
  exactly \<open>1 2 \<close>.
\<close>

theorem swap_then_print:
  assumes "32 \<le> lb"
  shows "observation (main_execute lb ''1 2 swap'' initial) \<lparr>stack = 4\<rparr> =
           Some (Completed, Some [2, 1], []) \<and>
         observation (main_execute lb ''1 2 swap . .'' initial) \<lparr>stack = 6\<rparr> =
           Some (Completed, Some [], ''1 2 '')"
proof -
  have S: "Suc (length (heap initial) + length [TInt 1, TInt 2, TSym ''swap'']) = 4"
    "Suc (length (heap initial) + length [TInt 1, TInt 2, TSym ''swap'', TSym ''.'', TSym ''.''])
      = 6"
    by (simp_all add: initial_def)
  show ?thesis
    using main_execute_observation [OF tokenize_swap_print(1) [OF assms], of initial]
      main_execute_observation [OF tokenize_swap_print(2) [OF assms], of initial]
    unfolding S
    by (simp add: initial_def v_observation_def v_lookups v_swap_def v_print_def
        decimal_examples)
qed

theorem swap_then_print_witness:
  "observation (main_execute 64 ''1 2 swap'' initial) \<lparr>stack = 4\<rparr> =
     Some (Completed, Some [2, 1], []) \<and>
   observation (main_execute 64 ''1 2 swap . .'' initial) \<lparr>stack = 6\<rparr> =
     Some (Completed, Some [], ''1 2 '')"
  by (rule swap_then_print) simp

text \<open>
  Claim C10. An integer literal compiles, without error, to one Integer object whose
  \<open>number\<close> is the result of \<open>strtol\<close> converted to a 32-bit \<open>int\<close>: the result of \<open>strtol\<close> is
  the value of the literal kept within the range of \<open>long\<close>, and the conversion reduces it
  modulo \<open>2 ^ 32\<close>. With a \<open>long\<close> of 64 bits the literal \<open>4294967296\<close> compiles to the
  Integer 0.
\<close>

theorem literal_truncated_to_int:
  assumes "literal s"
  shows "(\<exists>m1 pl. compile lb s m = Some (Inr (Inr (length (heap m)), m1)) \<and>
            cell m1 (length (heap m)) = Some pl \<and> element pl = [Suc (length (heap m))] \<and>
            cell m1 (Suc (length (heap m))) =
              Some \<lparr>type = TF_OBJ_INT, refcount = 1, number = word_of_int (fst (strtol lb s)),
                    str = [], element = [], capacity = 0\<rparr>) \<and>
         fst (strtol lb s) = max (LONG_MIN lb) (min (LONG_MAX lb) (literal_value s)) \<and>
         uint (word_of_int (fst (strtol lb s)) :: 32 word) = fst (strtol lb s) mod 2 ^ 32 \<and>
         compile 64 ''4294967296'' initial =
           Some (Inr (Inr 0,
             \<lparr>heap = [Some \<lparr>type = TF_OBJ_LIST, refcount = 1, number = 0, str = [],
                             element = [1], capacity = 16\<rparr>,
                       Some \<lparr>type = TF_OBJ_INT, refcount = 1, number = 0, str = [],
                             element = [], capacity = 0\<rparr>],
              stdout = []\<rparr>))"
proof -
  have v: "fst (strtol lb s) = max (LONG_MIN lb) (min (LONG_MAX lb) (literal_value s))"
    using literal_number(3) [OF assms, of "[]" lb] by (simp add: ends_number_def)
  have tok: "tokenize lb s = Inr [TInt (word_of_int (fst (strtol lb s)))]"
    unfolding v by (rule tokenize_literal [OF assms])
  from compile_tokenize [of lb s m] tok obtain cap where
    c: "compile lb s m = Some (Inr (Inr (length (heap m)),
          m\<lparr>heap := program_heap (heap m) [TInt (word_of_int (fst (strtol lb s)))] cap\<rparr>))"
    by auto
  define m1 where "m1 = m\<lparr>heap := program_heap (heap m) [TInt (word_of_int (fst (strtol lb s)))] cap\<rparr>"
  have h1: "heap m1 = program_heap (heap m) [TInt (word_of_int (fst (strtol lb s)))] cap @ []"
    by (simp add: m1_def)
  have "cell m1 (length (heap m)) = Some (list_cell (addresses (Suc (length (heap m))) 1) cap)"
    using cell_program_heap_list [OF h1] by simp
  moreover have "cell m1 (Suc (length (heap m))) =
      Some (token_cell (TInt (word_of_int (fst (strtol lb s)))))"
    using cell_program_heap_token [OF h1, of 0] by simp
  ultimately have "\<exists>m1 pl. compile lb s m = Some (Inr (Inr (length (heap m)), m1)) \<and>
      cell m1 (length (heap m)) = Some pl \<and> element pl = [Suc (length (heap m))] \<and>
      cell m1 (Suc (length (heap m))) =
        Some \<lparr>type = TF_OBJ_INT, refcount = 1, number = word_of_int (fst (strtol lb s)),
              str = [], element = [], capacity = 0\<rparr>"
    using c by (auto simp: m1_def list_cell_def addresses_def)
  moreover have "uint (word_of_int (fst (strtol lb s)) :: 32 word) = fst (strtol lb s) mod 2 ^ 32"
    by (simp add: uint_word_of_int)
  moreover have "compile 64 ''4294967296'' initial =
      Some (Inr (Inr 0,
        \<lparr>heap = [Some \<lparr>type = TF_OBJ_LIST, refcount = 1, number = 0, str = [],
                        element = [1], capacity = 16\<rparr>,
                  Some \<lparr>type = TF_OBJ_INT, refcount = 1, number = 0, str = [],
                        element = [], capacity = 0\<rparr>],
         stdout = []\<rparr>))"
    by code_simp
  ultimately show ?thesis using v by blast
qed

theorem literal_truncated_to_int_witness:
  "(\<exists>m1 pl. compile 64 ''4294967296'' initial = Some (Inr (Inr (length (heap initial)), m1)) \<and>
      cell m1 (length (heap initial)) = Some pl \<and> element pl = [Suc (length (heap initial))] \<and>
      cell m1 (Suc (length (heap initial))) =
        Some \<lparr>type = TF_OBJ_INT, refcount = 1,
              number = word_of_int (fst (strtol 64 ''4294967296'')),
              str = [], element = [], capacity = 0\<rparr>) \<and>
   fst (strtol 64 ''4294967296'') =
     max (LONG_MIN 64) (min (LONG_MAX 64) (literal_value ''4294967296'')) \<and>
   uint (word_of_int (fst (strtol 64 ''4294967296'')) :: 32 word) =
     fst (strtol 64 ''4294967296'') mod 2 ^ 32 \<and>
   compile 64 ''4294967296'' initial =
     Some (Inr (Inr 0,
       \<lparr>heap = [Some \<lparr>type = TF_OBJ_LIST, refcount = 1, number = 0, str = [],
                       element = [1], capacity = 16\<rparr>,
                 Some \<lparr>type = TF_OBJ_INT, refcount = 1, number = 0, str = [],
                       element = [], capacity = 0\<rparr>],
        stdout = []\<rparr>))"
  by (rule literal_truncated_to_int) (simp add: literal_examples)




text \<open>
  Claim C9. Let the two objects on top of the stack be \<open>a\<close> below \<open>b\<close>, at least one of them
  not an Integer. Each of \<open>operationAdd\<close>, \<open>operationSub\<close>, \<open>operationMul\<close> and \<open>operationDiv\<close>
  then does what popping \<open>b\<close> and \<open>a\<close> and releasing \<open>a\<close> and \<open>b\<close> does, and nothing else: when it
  returns, no object has been allocated, nothing has been printed, and the stack, if it
  is still allocated, holds the elements that were below the two operands. When neither
  operand is a list, it returns with the reference count of each operand decremented
  (the operand freed when the count was 1) and the stack two elements shorter.
\<close>

theorem non_integer_operands_consumed:
  assumes "cell m (stack cx) = Some s" and "element s = xs @ [pa, pb]"
    and "pa \<noteq> stack cx" and "pb \<noteq> stack cx"
    and "cell m pa = Some oa" and "cell m pb = Some ob"
    and "type oa \<noteq> TF_OBJ_INT \<or> type ob \<noteq> TF_OBJ_INT"
    and "op \<in> {operationAdd, operationSub, operationMul, operationDiv}"
  shows "op cx m =
           bind (decrementReferenceCount pa) (\<lambda>_. decrementReferenceCount pb)
             (m\<lparr>heap := (heap m)[stack cx := Some (s\<lparr>element := xs\<rparr>)]\<rparr>) \<and>
         (\<forall>m'. op cx m = Inr ((), m') \<longrightarrow>
            length (heap m') = length (heap m) \<and> stdout m' = stdout m \<and>
            (cell m' (stack cx) = None \<or>
             (\<exists>s'. cell m' (stack cx) = Some s' \<and> element s' = xs))) \<and>
         (type oa \<noteq> TF_OBJ_LIST \<and> type ob \<noteq> TF_OBJ_LIST \<and> (pa = pb \<longrightarrow> refcount oa \<noteq> 1) \<longrightarrow>
            op cx m =
              Inr ((), released pb (released pa
                (m\<lparr>heap := (heap m)[stack cx := Some (s\<lparr>element := xs\<rparr>)]\<rparr>))) \<and>
            cell (released pb (released pa
                (m\<lparr>heap := (heap m)[stack cx := Some (s\<lparr>element := xs\<rparr>)]\<rparr>))) (stack cx) =
              Some (s\<lparr>element := xs\<rparr>))"
proof -
  let ?S = "stack cx"
  let ?m1 = "m\<lparr>heap := (heap m)[?S := Some (s\<lparr>element := xs\<rparr>)]\<rparr>"
  let ?release = "bind (decrementReferenceCount pa) (\<lambda>_. decrementReferenceCount pb)"
  have l: "?S < length (heap m)"
    using assms(1) by (rule cell_Some_less)
  have a1: "cell ?m1 pa = Some oa" and b1: "cell ?m1 pb = Some ob"
    using assms(3-6) by simp_all
  have s1: "cell ?m1 ?S = Some (s\<lparr>element := xs\<rparr>)"
    using l by simp
  note w = operations_without_integers [OF a1 b1 assms(7)]
  have "operationAdd cx m = ?release ?m1" "operationSub cx m = ?release ?m1"
    "operationMul cx m = ?release ?m1" "operationDiv cx m = ?release ?m1"
    unfolding operationAdd_def operationSub_def operationMul_def operationDiv_def
      pop_two [OF assms(1,2)] w
    by simp_all
  hence op: "op cx m = ?release ?m1"
    using assms(8) by auto
  have frame: "length (heap m') = length (heap m) \<and> stdout m' = stdout m \<and>
      (cell m' ?S = None \<or> (\<exists>s'. cell m' ?S = Some s' \<and> element s' = xs))"
    if r: "?release ?m1 = Inr ((), m')" for m'
  proof -
    from r obtain m2 where
      a: "decrementReferenceCount pa ?m1 = Inr ((), m2)" and
      b: "decrementReferenceCount pb m2 = Inr ((), m')"
      by (auto simp: bind_Inr)
    have "length (heap m') = length (heap m)"
      using release_cell(1) [OF a] release_cell(1) [OF b] by simp
    moreover have "stdout m' = stdout m"
      using release_stdout(1) [OF a] release_stdout(1) [OF b] by simp
    moreover have "cell m' ?S = None \<or> (\<exists>s'. cell m' ?S = Some s' \<and> element s' = xs)"
      using release_cell(2) [OF a, of ?S] release_cell(2) [OF b, of ?S] s1 by auto
    ultimately show ?thesis by simp
  qed
  have explicit: "?release ?m1 = Inr ((), released pb (released pa ?m1))"
    if "type oa \<noteq> TF_OBJ_LIST" "type ob \<noteq> TF_OBJ_LIST" "pa = pb \<longrightarrow> refcount oa \<noteq> 1"
    using a1 that(1) b1 that(2,3) by (rule release_two)
  have stack: "cell (released pb (released pa ?m1)) ?S = Some (s\<lparr>element := xs\<rparr>)"
    using assms(3,4) s1 by (simp add: cell_released)
  show ?thesis
    unfolding op
  proof (intro conjI allI impI)
    fix m' assume "?release ?m1 = Inr ((), m')"
    from frame [OF this] show "length (heap m') = length (heap m)" "stdout m' = stdout m"
      "cell m' ?S = None \<or> (\<exists>s'. cell m' ?S = Some s' \<and> element s' = xs)"
      by simp_all
  next
    assume "type oa \<noteq> TF_OBJ_LIST \<and> type ob \<noteq> TF_OBJ_LIST \<and> (pa = pb \<longrightarrow> refcount oa \<noteq> 1)"
    thus "?release ?m1 = Inr ((), released pb (released pa ?m1))"
      using explicit by blast
  next
    show "cell (released pb (released pa ?m1)) ?S = Some (s\<lparr>element := xs\<rparr>)"
      by (rule stack)
  qed (rule refl)
qed

theorem non_integer_operands_consumed_witness:
  "operationAdd \<lparr>stack = 0\<rparr> operand_example =
     Inr ((), \<lparr>heap = [Some \<lparr>type = TF_OBJ_LIST, refcount = 1, number = 0, str = [],
                              element = [], capacity = 16\<rparr>,
                        None,
                        Some \<lparr>type = TF_OBJ_INT, refcount = 1, number = 7, str = [],
                              element = [], capacity = 0\<rparr>],
               stdout = []\<rparr>) \<and>
   operationDiv \<lparr>stack = 0\<rparr> operand_example =
     Inr ((), \<lparr>heap = [Some \<lparr>type = TF_OBJ_LIST, refcount = 1, number = 0, str = [],
                              element = [], capacity = 16\<rparr>,
                        None,
                        Some \<lparr>type = TF_OBJ_INT, refcount = 1, number = 7, str = [],
                              element = [], capacity = 0\<rparr>],
               stdout = []\<rparr>)"
proof -
  let ?s = "\<lparr>type = TF_OBJ_LIST, refcount = 1, number = 0, str = [], element = [1, 2],
      capacity = 16\<rparr>"
  let ?a = "\<lparr>type = TF_OBJ_BOOL, refcount = 1, number = 1, str = [], element = [],
      capacity = 0\<rparr>"
  let ?b = "\<lparr>type = TF_OBJ_INT, refcount = 2, number = 7, str = [], element = [],
      capacity = 0\<rparr>"
  have c: "cell operand_example 0 = Some ?s" "cell operand_example (Suc 0) = Some ?a"
    "cell operand_example 2 = Some ?b"
    by (simp_all add: cell_def operand_example_def)
  let ?m1 = "operand_example\<lparr>heap := (heap operand_example)
      [stack \<lparr>stack = 0\<rparr> := Some (?s\<lparr>element := []\<rparr>)]\<rparr>"
  have A: "operationAdd \<lparr>stack = 0\<rparr> operand_example = Inr ((), released 2 (released 1 ?m1))"
    by (rule non_integer_operands_consumed [where m = operand_example
          and cx = "\<lparr>stack = 0\<rparr>" and s = ?s and xs = "[]" and pa = 1 and pb = 2
          and oa = ?a and ob = ?b and op = operationAdd,
          THEN conjunct2, THEN conjunct2, THEN mp, THEN conjunct1])
      (simp_all add: c)
  have D: "operationDiv \<lparr>stack = 0\<rparr> operand_example = Inr ((), released 2 (released 1 ?m1))"
    by (rule non_integer_operands_consumed [where m = operand_example
          and cx = "\<lparr>stack = 0\<rparr>" and s = ?s and xs = "[]" and pa = 1 and pb = 2
          and oa = ?a and ob = ?b and op = operationDiv,
          THEN conjunct2, THEN conjunct2, THEN mp, THEN conjunct1])
      (simp_all add: c)
  show ?thesis
    unfolding A D by (simp add: released_def cell_def operand_example_def)
qed




end
